theory Spec2Isabelle
  imports Complex_Main "HOL-Library.Word"
begin

unbundle bit_operations_syntax

section \<open>Python values\<close>

text \<open>
  Python integers are unbounded: they are \<open>int\<close>.  A \<open>bytes\<close> object is a list of
  8-bit words; \<open>uint\<close> reads an element as the integer Python's indexing returns.
  Exceptions are values of the datatype \<open>error\<close>; a function that may raise returns
  \<open>error + 'a\<close> with \<open>Inl\<close> for the exception.  \<open>Diverges\<close> is not an exception: it
  is the outcome of a call that never returns.
\<close>

type_synonym byte = "8 word"
type_synonym bytes = "byte list"

datatype error =
    IndexError
  | ValueError
  | StructError
  | EOFError
  | ValidationError
  | ResourceLimitError
  | ProtocolError
  | Diverges

text \<open>Python's \<open>len\<close>, as an integer.\<close>

definition len :: "'a list \<Rightarrow> int" where
  "len xs = int (length xs)"

text \<open>
  Python's \<open>xs[i]\<close>: a negative index counts from the end, an index outside the
  sequence raises IndexError.
\<close>

definition py_get :: "'a list \<Rightarrow> int \<Rightarrow> error + 'a" where
  "py_get xs i =
     (let j = (if i < 0 then len xs + i else i)
      in if 0 \<le> j \<and> j < len xs then Inr (xs ! nat j) else Inl IndexError)"

text \<open>
  Python's \<open>xs[a:b]\<close>: negative bounds count from the end, every bound is clamped into
  \<open>[0, len xs]\<close>, and an empty or inverted range gives the empty sequence.  A slice
  never raises.
\<close>

definition py_bound :: "'a list \<Rightarrow> int \<Rightarrow> nat" where
  "py_bound xs i = nat (min (len xs) (max 0 (if i < 0 then len xs + i else i)))"

definition py_slice :: "'a list \<Rightarrow> int \<Rightarrow> int \<Rightarrow> 'a list" where
  "py_slice xs a b = drop (py_bound xs a) (take (py_bound xs b) xs)"

text \<open>Python's \<open>xs[:b]\<close>.\<close>

definition py_prefix :: "'a list \<Rightarrow> int \<Rightarrow> 'a list" where
  "py_prefix xs b = take (py_bound xs b) xs"

section \<open>Constants of the module\<close>

definition CHAR_OFFSET :: int where "CHAR_OFFSET = 0"
definition CHUNK_SIZE :: int where "CHUNK_SIZE = 32 * 1024"
definition MAX_BLOCK_SIZE :: int where "MAX_BLOCK_SIZE = 0x20000"
definition OLD_MAX_BLOCK_SIZE :: int where "OLD_MAX_BLOCK_SIZE = 0x2000"
definition MD5_DIGEST_LEN :: int where "MD5_DIGEST_LEN = 16"
definition MAX_DIGEST_LEN :: int where "MAX_DIGEST_LEN = 64"
definition SHORT_SUM_LENGTH :: int where "SHORT_SUM_LENGTH = 2"
definition CSUM_LENGTH :: int where "CSUM_LENGTH = SHORT_SUM_LENGTH"
definition TRADITIONAL_TABLESIZE :: int where "TRADITIONAL_TABLESIZE = push_bit 16 1"
definition MAX_FILE_SIZE_IN_MEMORY :: int where "MAX_FILE_SIZE_IN_MEMORY = 1024 * 1024 * 100"

section \<open>Checksum primitives (class Checksum)\<close>

text \<open>
  \<open>rolling_checksum\<close>: the loop \<open>for i in range(length)\<close> reads \<open>data[offset + i]\<close>
  and keeps both sums masked to 16 bits.  \<open>rc_loop\<close> is the loop over the index list
  \<open>range(length)\<close>.
\<close>

fun rc_loop :: "bytes \<Rightarrow> int \<Rightarrow> nat list \<Rightarrow> int \<times> int \<Rightarrow> error + (int \<times> int)" where
  "rc_loop data offset [] acc = Inr acc"
| "rc_loop data offset (i # is) (s1, s2) =
     (case py_get data (offset + int i) of
        Inl e \<Rightarrow> Inl e
      | Inr b \<Rightarrow>
          (let byte_val = uint b + CHAR_OFFSET;
               s1' = (s1 + byte_val) AND 0xFFFF;
               s2' = (s2 + s1') AND 0xFFFF
           in rc_loop data offset is (s1', s2')))"

definition rolling_checksum :: "bytes \<Rightarrow> int \<Rightarrow> int option \<Rightarrow> error + int" where
  "rolling_checksum data offset length_opt =
     (let n = (case length_opt of None \<Rightarrow> len data - offset | Some l \<Rightarrow> l)
      in case rc_loop data offset [0..<nat n] (0, 0) of
           Inl e \<Rightarrow> Inl e
         | Inr (s1, s2) \<Rightarrow> Inr ((s1 AND 0xFFFF) OR (push_bit 16 s2)))"

text \<open>
  \<open>rolling_checksum_optimized\<close>: four bytes per iteration while \<open>i < length - 3\<close>,
  then the remaining bytes one at a time.
\<close>

function rco_loop4 :: "bytes \<Rightarrow> int \<Rightarrow> int \<Rightarrow> int \<Rightarrow> int \<times> int \<Rightarrow> error + (int \<times> int \<times> int)" where
  "rco_loop4 data offset n i (s1, s2) =
     (if i < n - 3 then
        (case py_get data (offset + i) of Inl e \<Rightarrow> Inl e | Inr d0 \<Rightarrow>
        (case py_get data (offset + i + 1) of Inl e \<Rightarrow> Inl e | Inr d1 \<Rightarrow>
        (case py_get data (offset + i + 2) of Inl e \<Rightarrow> Inl e | Inr d2 \<Rightarrow>
        (case py_get data (offset + i + 3) of Inl e \<Rightarrow> Inl e | Inr d3 \<Rightarrow>
           (let b0 = uint d0 + CHAR_OFFSET;
                b1 = uint d1 + CHAR_OFFSET;
                b2 = uint d2 + CHAR_OFFSET;
                b3 = uint d3 + CHAR_OFFSET;
                s2' = (s2 + 4 * (s1 + b0) + 3 * b1 + 2 * b2 + b3) AND 0xFFFF;
                s1' = (s1 + b0 + b1 + b2 + b3) AND 0xFFFF
            in rco_loop4 data offset n (i + 4) (s1', s2'))))))
      else Inr (i, s1, s2))"
  by pat_completeness auto
termination
  by (relation "measure (\<lambda>(data, offset, n, i, acc). nat (n - i))") auto

declare rco_loop4.simps [simp del]

function rco_loop1 :: "bytes \<Rightarrow> int \<Rightarrow> int \<Rightarrow> int \<Rightarrow> int \<times> int \<Rightarrow> error + (int \<times> int)" where
  "rco_loop1 data offset n i (s1, s2) =
     (if i < n then
        (case py_get data (offset + i) of Inl e \<Rightarrow> Inl e | Inr d \<Rightarrow>
           (let byte_val = uint d + CHAR_OFFSET;
                s1' = (s1 + byte_val) AND 0xFFFF;
                s2' = (s2 + s1') AND 0xFFFF
            in rco_loop1 data offset n (i + 1) (s1', s2')))
      else Inr (s1, s2))"
  by pat_completeness auto
termination
  by (relation "measure (\<lambda>(data, offset, n, i, acc). nat (n - i))") auto

declare rco_loop1.simps [simp del]

definition rolling_checksum_optimized :: "bytes \<Rightarrow> int \<Rightarrow> int option \<Rightarrow> error + int" where
  "rolling_checksum_optimized data offset length_opt =
     (let n = (case length_opt of None \<Rightarrow> len data - offset | Some l \<Rightarrow> l)
      in case rco_loop4 data offset n 0 (0, 0) of
           Inl e \<Rightarrow> Inl e
         | Inr (i, s1, s2) \<Rightarrow>
             (case rco_loop1 data offset n i (s1, s2) of
                Inl e \<Rightarrow> Inl e
              | Inr (s1', s2') \<Rightarrow> Inr ((s1' AND 0xFFFF) OR (push_bit 16 s2'))))"

text \<open>\<open>rolling_update\<close>: the window slides by one byte, its length unchanged.\<close>

definition rolling_update :: "int \<Rightarrow> int \<Rightarrow> int \<Rightarrow> int \<Rightarrow> int \<Rightarrow> int \<times> int" where
  "rolling_update old_byte new_byte old_s1 old_s2 n =
     (let old_val = old_byte + CHAR_OFFSET;
          new_val = new_byte + CHAR_OFFSET;
          new_s1 = (old_s1 - old_val + new_val) AND 0xFFFF;
          new_s2 = (old_s2 - n * old_val + new_s1) AND 0xFFFF
      in (new_s1, new_s2))"

text \<open>
  The shrink update of \<open>generate_delta\<close> (the \<open>else\<close> branch of \<open>if more\<close>): the byte
  \<open>old_byte = mv[offset]\<close> leaves the window, \<open>k\<close> is the length before the update.
\<close>

definition shrink_update :: "int \<Rightarrow> int \<Rightarrow> int \<Rightarrow> int \<Rightarrow> int \<times> int" where
  "shrink_update old_byte s1 s2 k =
     (let old_val = old_byte + CHAR_OFFSET
      in ((s1 - old_val) AND 0xFFFF, (s2 - k * old_val) AND 0xFFFF))"

definition combine_checksum :: "int \<Rightarrow> int \<Rightarrow> int" where
  "combine_checksum s1 s2 = (s1 AND 0xFFFF) OR (push_bit 16 (s2 AND 0xFFFF))"

definition checksum_components :: "int \<Rightarrow> int \<times> int" where
  "checksum_components checksum = (checksum AND 0xFFFF, (drop_bit 16 checksum) AND 0xFFFF)"

subsection \<open>The weak checksum of a window, in closed form\<close>

text \<open>
  Specification-side definitions used to state the rolling-update properties:
  \<open>window D off k\<close> is \<open>D[off : off + k]\<close> for an in-range window, \<open>wsum1\<close> is the
  plain sum of its bytes and \<open>wsum2\<close> the sum weighted by the distance to the window's
  end, as in section 4.1 of the specification.
\<close>

definition window :: "bytes \<Rightarrow> int \<Rightarrow> int \<Rightarrow> bytes" where
  "window D off k = take (nat k) (drop (nat off) D)"

fun wsum1 :: "bytes \<Rightarrow> int" where
  "wsum1 [] = 0"
| "wsum1 (b # bs) = uint b + wsum1 bs"

fun wsum2 :: "bytes \<Rightarrow> int" where
  "wsum2 [] = 0"
| "wsum2 (b # bs) = (len bs + 1) * uint b + wsum2 bs"

definition pack_weak :: "bytes \<Rightarrow> int" where
  "pack_weak W = ((wsum1 W mod 65536) AND 0xFFFF) OR push_bit 16 (wsum2 W mod 65536)"

text \<open>
  The two incremental updates as the matcher applies them to a 32-bit weak checksum:
  split it with \<open>checksum_components\<close>, update, and recombine with
  \<open>combine_checksum\<close>.
\<close>

definition shrink_weak :: "int \<Rightarrow> int \<Rightarrow> int \<Rightarrow> int" where
  "shrink_weak w old_byte k =
     (case checksum_components w of (s1, s2) \<Rightarrow>
        (case shrink_update old_byte s1 s2 k of (s1', s2') \<Rightarrow> combine_checksum s1' s2'))"

definition slide_weak :: "int \<Rightarrow> int \<Rightarrow> int \<Rightarrow> int \<Rightarrow> int" where
  "slide_weak w old_byte new_byte k =
     (case checksum_components w of (s1, s2) \<Rightarrow>
        (case rolling_update old_byte new_byte s1 s2 k of (s1', s2') \<Rightarrow> combine_checksum s1' s2'))"

section \<open>Data model (dataclasses)\<close>

text \<open>
  \<open>BlockChecksum\<close>, \<open>ChecksumSignature\<close>, \<open>DeltaMatch\<close>, \<open>DeltaLiteral\<close> and
  \<open>DeltaInstructions\<close>.  Every integer field is a Python \<open>int\<close>.  An instruction is the
  pair \<open>(cmd, instr)\<close> of the source: a string tag and a payload that is an instance of
  \<open>DeltaMatch\<close> or of \<open>DeltaLiteral\<close>; the two need not agree.  The statistics object
  and the parity trace do not influence any instruction and are left out.
\<close>

record BlockChecksum =
  weak_checksum :: int
  strong_checksum :: bytes
  blk_offset :: int
  blk_length :: int

record ChecksumSignature =
  block_size :: int
  file_size :: int
  num_blocks :: int
  blocks :: "BlockChecksum list"

datatype DeltaPayload =
    DeltaMatch (block_index: int) (offset_in_new: int) (match_length: int)
  | DeltaLiteral (lit_offset: int) (lit_data: bytes)

type_synonym Instruction = "string \<times> DeltaPayload"

record DeltaInstructions =
  original_file_size :: int
  new_file_size :: int
  delta_block_size :: int
  instructions :: "Instruction list"
  compression_ratio :: real
  sender_file_sum :: "bytes option"

text \<open>The property \<open>ChecksumSignature.s2length\<close>.\<close>

definition s2length :: "ChecksumSignature \<Rightarrow> int" where
  "s2length sig =
     (case blocks sig of [] \<Rightarrow> MD5_DIGEST_LEN | b # _ \<Rightarrow> len (strong_checksum b))"

section \<open>Input validation\<close>


text \<open>
  \<open>validate_data\<close>; the \<open>isinstance\<close> test always succeeds on a value of type \<open>bytes\<close>.
\<close>

definition validate_data :: "bytes \<Rightarrow> int option \<Rightarrow> int \<Rightarrow> error + unit" where
  "validate_data data max_size min_size =
     (if len data < min_size then Inl ValidationError
      else case max_size of
             None \<Rightarrow> Inr ()
           | Some m \<Rightarrow> if len data > m then Inl ResourceLimitError else Inr ())"

section \<open>Applying a delta (ChecksumEngine.apply_delta)\<close>

text \<open>
  One iteration of the loop over \<open>delta.instructions\<close>: a \<open>'match'\<close> tag with a
  \<open>DeltaMatch\<close> payload appends the slice \<open>original_data[start:end]\<close>, a \<open>'literal'\<close>
  tag with a \<open>DeltaLiteral\<close> payload appends its data, anything else falls through both
  tests.
\<close>

fun apply_instruction :: "bytes \<Rightarrow> int \<Rightarrow> bytes \<Rightarrow> Instruction \<Rightarrow> bytes" where
  "apply_instruction original_data bs result (cmd, DeltaMatch bi off n) =
     (if cmd = ''match'' then
        (let start = bi * bs; stop = start + n
         in result @ py_slice original_data start stop)
      else result)"
| "apply_instruction original_data bs result (cmd, DeltaLiteral off d) =
     (if cmd = ''literal'' then result @ d else result)"

definition apply_delta :: "bytes \<Rightarrow> DeltaInstructions \<Rightarrow> error + bytes" where
  "apply_delta original_data delta =
     (case validate_data original_data (Some MAX_FILE_SIZE_IN_MEMORY) 0 of
        Inl e \<Rightarrow> Inl e
      | Inr _ \<Rightarrow>
          Inr (foldl (apply_instruction original_data (delta_block_size delta)) []
                 (instructions delta)))"

text \<open>
  What one instruction contributes to the output, written without its offset field:
  the specification-side reading of claim C10.
\<close>

fun contribution :: "bytes \<Rightarrow> int \<Rightarrow> string \<Rightarrow> DeltaPayload \<Rightarrow> bytes" where
  "contribution B bs cmd (DeltaMatch bi off n) =
     (if cmd = ''match'' then py_slice B (bi * bs) (bi * bs + n) else [])"
| "contribution B bs cmd (DeltaLiteral off d) =
     (if cmd = ''literal'' then d else [])"

text \<open>An instruction with its offset field erased.\<close>

fun erase_offset :: "Instruction \<Rightarrow> Instruction" where
  "erase_offset (cmd, DeltaMatch bi off n) = (cmd, DeltaMatch bi 0 n)"
| "erase_offset (cmd, DeltaLiteral off d) = (cmd, DeltaLiteral 0 d)"

section \<open>Negotiation (\_choose\_from\_remote\_list)\<close>

text \<open>
  The dictionary \<open>rank = {name: i for i, name in enumerate(local_pref)}\<close>: entries are
  stored in list order, a later entry for the same name replaces the earlier one.
\<close>

fun rank_dict :: "string list \<Rightarrow> int \<Rightarrow> (string \<rightharpoonup> int) \<Rightarrow> (string \<rightharpoonup> int)" where
  "rank_dict [] i m = m"
| "rank_dict (name # names) i m = rank_dict names (i + 1) (m(name \<mapsto> i))"

text \<open>The server's loop: return at the first token of the remote list in the local set.\<close>

fun server_loop :: "string set \<Rightarrow> string list \<Rightarrow> error + string" where
  "server_loop local_set [] = Inl ProtocolError"
| "server_loop local_set (tok # rest) =
     (if tok \<in> local_set then Inr tok else server_loop local_set rest)"

text \<open>
  The client's loop over the remote list with the state \<open>(best_tok, best_rank)\<close>; the
  \<open>break\<close> at rank 0 ends it.
\<close>

fun client_loop ::
  "(string \<rightharpoonup> int) \<Rightarrow> string set \<Rightarrow> string list \<Rightarrow> string option \<times> int \<Rightarrow> string option \<times> int" where
  "client_loop rank local_set [] st = st"
| "client_loop rank local_set (tok # rest) (best_tok, best_rank) =
     (if tok \<in> local_set then
        (let r = (case rank tok of None \<Rightarrow> best_rank | Some i \<Rightarrow> i)
         in if r < best_rank then
              (if r = 0 then (Some tok, r)
               else client_loop rank local_set rest (Some tok, r))
            else client_loop rank local_set rest (best_tok, best_rank))
      else client_loop rank local_set rest (best_tok, best_rank))"

definition choose_from_remote_list :: "bool \<Rightarrow> string list \<Rightarrow> string list \<Rightarrow> error + string" where
  "choose_from_remote_list am_server local_pref remote_list =
     (let local_set = set local_pref in
      if am_server then server_loop local_set remote_list
      else
        (let rank = rank_dict local_pref 0 Map.empty
         in case client_loop rank local_set remote_list (None, len local_pref + 1) of
              (None, _) \<Rightarrow> Inl ProtocolError
            | (Some best_tok, _) \<Rightarrow> Inr best_tok))"

section \<open>Wire codec (class ProtocolIO)\<close>

text \<open>
  The transport is a collaborator of the codec.  The input side is the list of bytes
  not yet read: \<open>read_bytes\<close> returns the next \<open>sz\<close> bytes and the remaining input,
  and raises EOFError when fewer are left (the codec only asks for non-negative sizes).
  A writer returns the bytes it appends to the output, or the exception it raises.
\<close>

definition read_bytes :: "bytes \<Rightarrow> int \<Rightarrow> error + (bytes \<times> bytes)" where
  "read_bytes inp sz =
     (if 0 \<le> sz \<and> sz \<le> len inp then Inr (take (nat sz) inp, drop (nat sz) inp)
      else Inl EOFError)"

text \<open>Two writes in sequence: the second is not reached when the first raises.\<close>

definition then_write :: "error + bytes \<Rightarrow> error + bytes \<Rightarrow> error + bytes" where
  "then_write a b =
     (case a of Inl e \<Rightarrow> Inl e
      | Inr x \<Rightarrow> (case b of Inl e \<Rightarrow> Inl e | Inr y \<Rightarrow> Inr (x @ y)))"

text \<open>
  \<open>struct.pack\<close> and \<open>int.from_bytes\<close>, little-endian.  \<open>le_bytes n v\<close> are the \<open>n\<close> low
  bytes of \<open>v\<close> in two's complement; \<open>struct.pack\<close> raises \<open>struct.error\<close> outside the
  range of its format.
\<close>

fun le_bytes :: "nat \<Rightarrow> int \<Rightarrow> bytes" where
  "le_bytes 0 v = []"
| "le_bytes (Suc n) v = word_of_int v # le_bytes n (v div 256)"

fun from_le :: "bytes \<Rightarrow> int" where
  "from_le [] = 0"
| "from_le (b # bs) = uint b + 256 * from_le bs"

definition from_bytes_signed :: "bytes \<Rightarrow> int" where
  "from_bytes_signed bs =
     (let u = from_le bs; n = 8 * length bs
      in if 0 < n \<and> 2 ^ (n - 1) \<le> u then u - 2 ^ n else u)"

definition struct_pack_i :: "int \<Rightarrow> error + bytes" where
  "struct_pack_i v =
     (if - (2 ^ 31) \<le> v \<and> v < 2 ^ 31 then Inr (le_bytes 4 v) else Inl StructError)"

definition struct_pack_I :: "int \<Rightarrow> error + bytes" where
  "struct_pack_I v = (if 0 \<le> v \<and> v < 2 ^ 32 then Inr (le_bytes 4 v) else Inl StructError)"

definition struct_pack_q :: "int \<Rightarrow> error + bytes" where
  "struct_pack_q v =
     (if - (2 ^ 63) \<le> v \<and> v < 2 ^ 63 then Inr (le_bytes 8 v) else Inl StructError)"

definition read_int :: "bytes \<Rightarrow> error + (int \<times> bytes)" where
  "read_int inp =
     (case read_bytes inp 4 of
        Inl e \<Rightarrow> Inl e
      | Inr (d, rest) \<Rightarrow> Inr (from_bytes_signed d, rest))"

definition write_int :: "int \<Rightarrow> error + bytes" where
  "write_int v = struct_pack_i v"

definition read_byte :: "bytes \<Rightarrow> error + (int \<times> bytes)" where
  "read_byte inp =
     (case read_bytes inp 1 of
        Inl e \<Rightarrow> Inl e
      | Inr (d, rest) \<Rightarrow> Inr (uint (d ! 0), rest))"

text \<open>
  Python's slice assignment \<open>buf[a:b] = data\<close> on a bytearray, and the item assignment
  \<open>buf[i] = v\<close> for \<open>v\<close> in \<open>range(256)\<close> and \<open>i\<close> inside the buffer (the codec's buffers
  have a fixed size and its indices stay inside).
\<close>

definition py_set_slice :: "'a list \<Rightarrow> int \<Rightarrow> int \<Rightarrow> 'a list \<Rightarrow> 'a list" where
  "py_set_slice buf a b data =
     take (py_bound buf a) buf @ data @ drop (max (py_bound buf a) (py_bound buf b)) buf"

definition set_item :: "bytes \<Rightarrow> int \<Rightarrow> int \<Rightarrow> bytes" where
  "set_item buf i v = buf[nat i := word_of_int v]"

definition INT_BYTE_EXTRA :: "int list" where
  "INT_BYTE_EXTRA =
     [0, 0, 0, 0, 0, 0, 0, 0, 0, 0, 0, 0, 0, 0, 0, 0,
      0, 0, 0, 0, 0, 0, 0, 0, 0, 0, 0, 0, 0, 0, 0, 0,
      1, 1, 1, 1, 1, 1, 1, 1, 1, 1, 1, 1, 1, 1, 1, 1,
      2, 2, 2, 2, 2, 2, 2, 2, 3, 3, 3, 3, 4, 4, 5, 6]"

subsection \<open>varint and varlong\<close>

definition read_varint :: "bytes \<Rightarrow> error + (int \<times> bytes)" where
  "read_varint inp =
     (case read_byte inp of
        Inl e \<Rightarrow> Inl e
      | Inr (c, inp1) \<Rightarrow>
          (let ch = c AND 0xFF;
               extra = INT_BYTE_EXTRA ! nat (ch div 4)
           in if extra \<noteq> 0 then
                (if extra \<ge> 5 then Inl ProtocolError
                 else
                   (let bit = push_bit (nat (8 - extra)) (1::int);
                        buf = replicate 5 (0::byte)
                    in case read_bytes inp1 extra of
                         Inl e \<Rightarrow> Inl e
                       | Inr (data, inp2) \<Rightarrow>
                           (let buf1 = py_set_slice buf 0 extra data;
                                buf2 = set_item buf1 extra (ch AND (bit - 1))
                            in Inr (from_bytes_signed (py_prefix buf2 4), inp2))))
              else Inr (from_bytes_signed [word_of_int ch, 0, 0, 0], inp1)))"

text \<open>
  The loop \<open>while cnt > lo and b[cnt] == 0: cnt -= 1\<close> of both writers (\<open>lo\<close> is 1 in
  \<open>write_varint\<close> and \<open>min_bytes\<close> in \<open>write_varlong\<close>).
\<close>

function strip_cnt :: "bytes \<Rightarrow> int \<Rightarrow> int \<Rightarrow> int" where
  "strip_cnt b lo cnt =
     (if cnt > lo \<and> b ! nat cnt = 0 then strip_cnt b lo (cnt - 1) else cnt)"
  by pat_completeness auto
termination
  by (relation "measure (\<lambda>(b, lo, cnt). nat (cnt - lo))") auto

declare strip_cnt.simps [simp del]

definition write_varint :: "int \<Rightarrow> error + bytes" where
  "write_varint v =
     (case struct_pack_I (v AND 0xFFFFFFFF) of
        Inl e \<Rightarrow> Inl e
      | Inr p \<Rightarrow>
          (let b = py_set_slice (replicate 5 (0::byte)) 1 5 p;
               cnt = strip_cnt b 1 4;
               bit = push_bit (nat (8 - cnt)) (1::int)
           in if uint (b ! nat cnt) \<ge> bit then
                Inr (py_prefix (set_item b 0 ((NOT (bit - 1)) AND 0xFF)) (cnt + 1))
              else if cnt > 1 then
                Inr (py_prefix
                       (set_item b 0
                          ((uint (b ! nat cnt) OR ((NOT (bit * 2 - 1)) AND 0xFF)) AND 0xFF))
                       cnt)
              else Inr (py_prefix (set_item b 0 (uint (b ! 1))) cnt)))"

definition read_varlong :: "bytes \<Rightarrow> int \<Rightarrow> error + (int \<times> bytes)" where
  "read_varlong inp min_bytes =
     (if min_bytes < 1 \<or> min_bytes > 8 then Inl ProtocolError
      else case read_bytes inp min_bytes of
        Inl e \<Rightarrow> Inl e
      | Inr (b2, inp1) \<Rightarrow>
          (let extra = INT_BYTE_EXTRA ! nat ((uint (b2 ! 0) AND 0xFF) div 4);
               buf = replicate 9 (0::byte);
               buf1 = (if min_bytes > 1
                       then py_set_slice buf 0 (min_bytes - 1) (py_slice b2 1 min_bytes)
                       else buf)
           in if extra \<noteq> 0 then
                (if min_bytes + extra > len buf1 then Inl ProtocolError
                 else
                   (let bit = push_bit (nat (8 - extra)) (1::int)
                    in case read_bytes inp1 extra of
                         Inl e \<Rightarrow> Inl e
                       | Inr (tail, inp2) \<Rightarrow>
                           (let buf2 = py_set_slice buf1 (min_bytes - 1) (min_bytes - 1 + extra) tail;
                                buf3 = set_item buf2 (min_bytes + extra - 1)
                                         (uint (b2 ! 0) AND (bit - 1))
                            in Inr (from_bytes_signed (py_prefix buf3 8), inp2))))
              else
                (let buf3 = set_item buf1 (min_bytes + extra - 1) (uint (b2 ! 0))
                 in Inr (from_bytes_signed (py_prefix buf3 8), inp1))))"

definition write_varlong :: "int \<Rightarrow> int \<Rightarrow> error + bytes" where
  "write_varlong v min_bytes =
     (if min_bytes < 1 \<or> min_bytes > 8 then Inl ProtocolError
      else case struct_pack_q v of
        Inl e \<Rightarrow> Inl e
      | Inr p \<Rightarrow>
          (let b = py_set_slice (replicate 9 (0::byte)) 1 9 p;
               cnt = strip_cnt b min_bytes 8;
               bit = push_bit (nat (7 - cnt + min_bytes)) (1::int)
           in if uint (b ! nat cnt) \<ge> bit then
                Inr (py_prefix (set_item b 0 ((NOT (bit - 1)) AND 0xFF)) (cnt + 1))
              else if cnt > min_bytes then
                Inr (py_prefix
                       (set_item b 0
                          ((uint (b ! nat cnt) OR ((NOT (bit * 2 - 1)) AND 0xFF)) AND 0xFF))
                       cnt)
              else Inr (py_prefix (set_item b 0 (uint (b ! nat cnt))) cnt)))"

subsection \<open>Sum header\<close>

record SumHead =
  sh_count :: int
  sh_blength :: int
  sh_s2length :: int
  sh_remainder :: int

definition read_sum_head :: "bytes \<Rightarrow> int \<Rightarrow> error + (SumHead \<times> bytes)" where
  "read_sum_head inp protocol_version =
     (let max_blength = (if protocol_version < 30 then OLD_MAX_BLOCK_SIZE else MAX_BLOCK_SIZE)
      in case read_int inp of
           Inl e \<Rightarrow> Inl e
         | Inr (count, inp1) \<Rightarrow>
             if count < 0 then Inl ProtocolError
             else (case read_int inp1 of
               Inl e \<Rightarrow> Inl e
             | Inr (blength, inp2) \<Rightarrow>
                 if blength < 0 \<or> blength > max_blength then Inl ProtocolError
                 else (case (if protocol_version \<ge> 27 then read_int inp2
                             else Inr (CSUM_LENGTH, inp2)) of
                   Inl e \<Rightarrow> Inl e
                 | Inr (s2len, inp3) \<Rightarrow>
                     if s2len < 0 \<or> s2len > MAX_DIGEST_LEN then Inl ProtocolError
                     else (case read_int inp3 of
                       Inl e \<Rightarrow> Inl e
                     | Inr (remainder, inp4) \<Rightarrow>
                         if remainder < 0 \<or> remainder > blength then Inl ProtocolError
                         else Inr (\<lparr>sh_count = count, sh_blength = blength,
                                    sh_s2length = s2len, sh_remainder = remainder\<rparr>, inp4)))))"

definition write_sum_head :: "SumHead option \<Rightarrow> int \<Rightarrow> error + bytes" where
  "write_sum_head sum_struct_opt protocol_version =
     (let sum_struct = (case sum_struct_opt of
                          None \<Rightarrow> \<lparr>sh_count = 0, sh_blength = 0, sh_s2length = 0, sh_remainder = 0\<rparr>
                        | Some s \<Rightarrow> s)
      in then_write (write_int (sh_count sum_struct))
          (then_write (write_int (sh_blength sum_struct))
            (then_write (if protocol_version \<ge> 27 then write_int (sh_s2length sum_struct) else Inr [])
              (write_int (sh_remainder sum_struct)))))"

subsection \<open>Simple token stream\<close>

text \<open>The loop \<open>while sent < n\<close> of \<open>_send_token_simple\<close>.\<close>

function send_chunks :: "bytes \<Rightarrow> int \<Rightarrow> int \<Rightarrow> int \<Rightarrow> error + bytes" where
  "send_chunks data off n sent =
     (if sent < n then
        (let chunk_len = min CHUNK_SIZE (n - sent)
         in then_write (write_int chunk_len)
              (then_write (Inr (py_slice data (off + sent) (off + sent + chunk_len)))
                 (send_chunks data off n (sent + chunk_len))))
      else Inr [])"
  by pat_completeness auto
termination
  by (relation "measure (\<lambda>(data, off, n, sent). nat (n - sent))")
     (auto simp: CHUNK_SIZE_def min_def)

declare send_chunks.simps [simp del]

definition send_token_simple :: "int \<Rightarrow> bytes option \<Rightarrow> int \<Rightarrow> int \<Rightarrow> error + bytes" where
  "send_token_simple token data_opt off n =
     then_write
       (case data_opt of
          None \<Rightarrow> Inr []
        | Some data \<Rightarrow> if n > 0 then send_chunks data off n 0 else Inr [])
       (if token \<noteq> -2 then write_int (- (token + 1)) else Inr [])"


section \<open>Receiver (receive\_data)\<close>




subsection \<open>A token stream, described\<close>







section \<open>Block sizes and checksum lengths (sum\_sizes\_sqroot)\<close>











section \<open>Strong checksums (ChecksumRegistry)\<close>

text \<open>
  The digests of \<open>hashlib\<close>, \<open>xxhash\<close> and the MD4 fallback are library code: they
  enter the model as a parameter \<open>lib\<close>, the seeded digest function of each checksum
  type.  \<open>ChecksumType.NONE\<close> is the constant function of the source.
\<close>

datatype ChecksumType = MD4 | MD5 | SHA1 | SHA256 | XXH64 | XXH3 | XXH128 | NONE




section \<open>The engine (class ChecksumEngine)\<close>

text \<open>
  The fields of a \<open>ChecksumEngine\<close> that the matcher reads: the block size, the
  checksum type with the function \<open>strong_checksum_func\<close> obtained from the registry,
  and the protocol version (\<open>PROTOCOL_VERSION\<close> without a protocol manager).  The
  constructor validates the block size.  The class attributes of \<open>Config\<close> that the
  matcher reads are a record of their own.
\<close>

record ChecksumEngine =
  eng_block_size :: int
  eng_checksum_type :: ChecksumType
  strong_checksum_func :: "bytes \<Rightarrow> bytes"
  eng_protocol :: int

record Config =
  UPDATING_BASIS_FILE :: bool
  HASH_TABLE_DYNAMIC :: bool
  COMPUTE_SENDER_FILE_SUM :: bool



section \<open>Signatures (block\_checksums and generate\_signature)\<close>







section \<open>The hash table of the matcher (class HashTable)\<close>

text \<open>
  The dictionary \<open>_table\<close> maps a hash value to the list of block indices that have
  it, in ascending order.
\<close>

record HashTable =
  ht_blocks :: "BlockChecksum list"
  ht_count :: int
  tablesize :: int
  ht_table :: "int \<rightharpoonup> int list"

definition HashTable_hash :: "int \<Rightarrow> int \<Rightarrow> int" where
  "HashTable_hash tsize weak =
     (if tsize = TRADITIONAL_TABLESIZE then
        (let s1 = weak AND 0xFFFF; s2 = (drop_bit 16 weak) AND 0xFFFF
         in (s1 + s2) AND 0xFFFF)
      else weak mod tsize)"

fun HashTable_build ::
  "int \<Rightarrow> BlockChecksum list \<Rightarrow> int \<Rightarrow> (int \<rightharpoonup> int list) \<Rightarrow> (int \<rightharpoonup> int list)" where
  "HashTable_build tsize [] i tbl = tbl"
| "HashTable_build tsize (block # rest) i tbl =
     (let h = HashTable_hash tsize (weak_checksum block);
          chain = (case tbl h of None \<Rightarrow> [] | Some c \<Rightarrow> c)
      in HashTable_build tsize rest (i + 1) (tbl(h \<mapsto> chain @ [i])))"

definition new_HashTable :: "Config \<Rightarrow> BlockChecksum list \<Rightarrow> HashTable" where
  "new_HashTable cfg bl =
     (let count = len bl;
          tsize = (if HASH_TABLE_DYNAMIC cfg \<and> count > 0
                   then (let t = (count div 8) * 10 + 11
                         in if t < TRADITIONAL_TABLESIZE then TRADITIONAL_TABLESIZE else t)
                   else TRADITIONAL_TABLESIZE)
      in \<lparr>ht_blocks = bl, ht_count = count, tablesize = tsize,
          ht_table = HashTable_build tsize bl 0 Map.empty\<rparr>)"

definition lookup_indices :: "HashTable \<Rightarrow> int \<Rightarrow> int option \<Rightarrow> int list" where
  "lookup_indices ht weak length_opt =
     (let h = HashTable_hash (tablesize ht) weak;
          indices = (case ht_table ht h of None \<Rightarrow> [] | Some c \<Rightarrow> c)
      in if indices = [] then []
         else (case length_opt of
                 None \<Rightarrow> filter (\<lambda>i. weak_checksum (ht_blocks ht ! nat i) = weak) indices
               | Some n \<Rightarrow>
                   filter (\<lambda>i. weak_checksum (ht_blocks ht ! nat i) = weak
                               \<and> blk_length (ht_blocks ht ! nat i) = n) indices))"

section \<open>The matcher (ChecksumEngine.generate\_delta)\<close>

text \<open>
  What the loop of \<open>generate_delta\<close> reads and does not change: the engine, the flag
  \<open>updating_basis_file\<close>, the signature, the hash table, the new data \<open>mv\<close> with its
  length, \<open>blength\<close>, \<open>end\<close> and the compare length \<open>s2length\<close>.
\<close>

record MatchCtx =
  cx_engine :: ChecksumEngine
  cx_updating :: bool
  cx_signature :: ChecksumSignature
  cx_hash_table :: HashTable
  cx_mv :: bytes
  cx_file_len :: int
  cx_blength :: int
  cx_end :: int
  cx_s2length :: int

text \<open>The local variables that the loop changes.\<close>

record MatchState =
  st_offset :: int
  st_k :: int
  st_s1 :: int
  st_s2 :: int
  st_lit_start :: int
  st_want_i :: int
  st_last_match :: int
  st_aligned_offset :: int
  st_aligned_i :: int
  st_same_offset :: "int set"
  st_instructions :: "Instruction list"

text \<open>
  \<open>signature.blocks[i]\<close>.  The indices read by the loop are never negative: they come
  from \<open>enumerate\<close>, or from \<open>want_i\<close> and \<open>aligned_i\<close>, which start at 0 and are only
  set to a block index or increased; every read of \<open>want_i\<close> and \<open>aligned_i\<close> is
  guarded by a comparison with \<open>len(signature.blocks)\<close>.
\<close>

definition block_at :: "MatchCtx \<Rightarrow> int \<Rightarrow> BlockChecksum" where
  "block_at C i = blocks (cx_signature C) ! nat i"

text \<open>The test \<open>strong[:s2length] == blk.strong_checksum[:s2length]\<close>.\<close>

definition strong_eq :: "MatchCtx \<Rightarrow> bytes \<Rightarrow> BlockChecksum \<Rightarrow> bool" where
  "strong_eq C strong blk =
     (py_prefix strong (cx_s2length C) = py_prefix (strong_checksum blk) (cx_s2length C))"

text \<open>
  The loop \<open>while aligned_offset < offset\<close>.  With \<open>blength \<le> 0\<close> it never ends; that
  outcome is \<open>None\<close>.
\<close>

function advance_aligned :: "int \<Rightarrow> int \<Rightarrow> int \<times> int \<Rightarrow> (int \<times> int) option" where
  "advance_aligned blength offset (aligned_offset, aligned_i) =
     (if aligned_offset < offset then
        (if 0 < blength
         then advance_aligned blength offset (aligned_offset + blength, aligned_i + 1)
         else None)
      else Some (aligned_offset, aligned_i))"
  by pat_completeness auto
termination
  by (relation "measure (\<lambda>(blength, offset, aligned_offset, aligned_i).
                  nat (offset - aligned_offset))") auto

declare advance_aligned.simps [simp del]

text \<open>
  The block \<open>if updating_basis_file and matched_index is not None\<close>: it returns the
  matched index, the strong checksum and the state with \<open>offset\<close>, \<open>aligned_offset\<close>,
  \<open>aligned_i\<close>, \<open>same_offset\<close> and \<open>want_i\<close> updated.
\<close>

definition aligned_match ::
  "MatchCtx \<Rightarrow> int \<Rightarrow> bytes \<Rightarrow> int \<Rightarrow> MatchState \<Rightarrow> error + (int \<times> bytes \<times> MatchState)" where
  "aligned_match C weak strong matched_index s =
     (case advance_aligned (cx_blength C) (st_offset s) (st_aligned_offset s, st_aligned_i s) of
        None \<Rightarrow> Inl Diverges
      | Some (ao, ai) \<Rightarrow>
          (let s1 = s\<lparr>st_aligned_offset := ao, st_aligned_i := ai\<rparr>;
               l = st_k s;
               offset = st_offset s
           in if (offset = ao \<or> (weak = 0 \<and> l = cx_blength C \<and> ao + l \<le> cx_file_len C))
                 \<and> ai < len (blocks (cx_signature C))
              then
                (let matched_index1 =
                       (if matched_index \<noteq> ai
                        then (let aligned_blk = block_at C ai
                              in if weak = weak_checksum aligned_blk
                                    \<and> l = blk_length aligned_blk
                                    \<and> strong_eq C strong aligned_blk
                                 then ai else matched_index)
                        else matched_index)
                 in if matched_index1 = ai then
                      (let (offset1, strong1) =
                             (if offset \<noteq> ao \<and> ao + l \<le> cx_file_len C then
                                (let aligned_window = py_slice (cx_mv C) ao (ao + l);
                                     aligned_strong = strong_checksum_func (cx_engine C) aligned_window
                                 in if strong_eq C aligned_strong (block_at C matched_index1)
                                    then (ao, aligned_strong) else (offset, strong))
                              else (offset, strong))
                       in Inr (matched_index1, strong1,
                               s1\<lparr>st_offset := offset1,
                                  st_same_offset := insert matched_index1 (st_same_offset s1),
                                  st_want_i := matched_index1\<rparr>))
                    else Inr (matched_index1, strong, s1))
              else Inr (matched_index, strong, s1)))"

text \<open>The block \<open>if matched_index is not None and matched_index != want_i\<close>.\<close>

definition want_match :: "MatchCtx \<Rightarrow> int \<Rightarrow> bytes \<Rightarrow> int \<Rightarrow> MatchState \<Rightarrow> int" where
  "want_match C weak strong matched_index s =
     (let want_i = st_want_i s
      in if matched_index \<noteq> want_i then
           (if want_i < len (blocks (cx_signature C)) then
              (let want_blk = block_at C want_i
               in if (\<not> cx_updating C \<or> blk_offset want_blk \<ge> st_offset s
                        \<or> want_i \<in> st_same_offset s)
                     \<and> weak = weak_checksum want_blk
                     \<and> strong_eq C strong want_blk
                  then want_i else matched_index)
            else matched_index)
         else matched_index)"

text \<open>
  The search for a match at the current window, from the hash lookup to the \<open>want_i\<close>
  test: \<open>None\<close> when \<open>matched_index\<close> is \<open>None\<close> at the end (no candidate, or only
  false alarms).
\<close>

definition find_match :: "MatchCtx \<Rightarrow> MatchState \<Rightarrow> error + (int option \<times> MatchState)" where
  "find_match C s =
     (let weak = combine_checksum (st_s1 s) (st_s2 s);
          candidate_indices = lookup_indices (cx_hash_table C) weak (Some (st_k s))
      in if candidate_indices = [] then Inr (None, s)
         else
           (let window_bytes = py_slice (cx_mv C) (st_offset s) (st_offset s + st_k s);
                strong = strong_checksum_func (cx_engine C) window_bytes;
                candidate_indices1 =
                  (if cx_updating C
                   then filter (\<lambda>i. blk_offset (block_at C i) \<ge> st_offset s
                                    \<or> i \<in> st_same_offset s) candidate_indices
                   else candidate_indices)
            in case List.find (\<lambda>idx. strong_eq C strong (block_at C idx)) candidate_indices1 of
                 None \<Rightarrow> Inr (None, s)
               | Some matched_index \<Rightarrow>
                   (case (if cx_updating C then aligned_match C weak strong matched_index s
                          else Inr (matched_index, strong, s)) of
                      Inl e \<Rightarrow> Inl e
                    | Inr (matched_index1, strong1, s1) \<Rightarrow>
                        Inr (Some (want_match C weak strong1 matched_index1 s1), s1))))"

text \<open>
  The tail of the match branch: flush the pending literal, emit the match, advance
  past it.  \<open>Break\<close> is the \<open>break\<close> of the source, \<open>Continue\<close> its \<open>continue\<close>.
\<close>

datatype 'a loop_exit = Continue 'a | Break 'a

definition emit_match :: "MatchCtx \<Rightarrow> int \<Rightarrow> MatchState \<Rightarrow> error + MatchState loop_exit" where
  "emit_match C matched_index s =
     (let offset = st_offset s;
          k = st_k s;
          ins1 = (if offset > st_lit_start s
                  then st_instructions s
                         @ [(''literal'', DeltaLiteral (st_lit_start s)
                                             (py_slice (cx_mv C) (st_lit_start s) offset))]
                  else st_instructions s);
          ins2 = ins1 @ [(''match'', DeltaMatch matched_index offset k)];
          s1 = s\<lparr>st_instructions := ins2, st_want_i := matched_index + 1,
                 st_last_match := offset + k, st_offset := offset + k,
                 st_lit_start := offset + k\<rparr>
      in if st_offset s1 \<ge> cx_file_len C then Inr (Break s1)
         else
           (let k1 = min (cx_blength C) (cx_file_len C - st_offset s1);
                s2 = s1\<lparr>st_k := k1\<rparr>
            in if k1 \<le> 0 then Inr (Break s2)
               else (case rolling_checksum_optimized (cx_mv C) (st_offset s2) (Some k1) of
                       Inl e \<Rightarrow> Inl e
                     | Inr weak0 \<Rightarrow>
                         (case checksum_components weak0 of
                            (s1', s2') \<Rightarrow> Inr (Continue (s2\<lparr>st_s1 := s1', st_s2 := s2'\<rparr>))))))"

text \<open>The no-match path: advance one byte with the rolling update, flush early.\<close>

definition no_match :: "MatchCtx \<Rightarrow> MatchState \<Rightarrow> error + MatchState" where
  "no_match C s =
     (let offset = st_offset s;
          k = st_k s;
          more = (offset + k < cx_file_len C)
      in case py_get (cx_mv C) offset of
           Inl e \<Rightarrow> Inl e
         | Inr ob \<Rightarrow>
             (let old_byte = uint ob
              in case (if more then
                         (case py_get (cx_mv C) (offset + k) of
                            Inl e \<Rightarrow> Inl e
                          | Inr nb \<Rightarrow>
                              (case rolling_update old_byte (uint nb) (st_s1 s) (st_s2 s) k of
                                 (s1', s2') \<Rightarrow> Inr (s\<lparr>st_s1 := s1', st_s2 := s2'\<rparr>)))
                       else
                         (let old_val = old_byte + CHAR_OFFSET
                          in Inr (s\<lparr>st_s1 := (st_s1 s - old_val) AND 0xFFFF,
                                    st_s2 := (st_s2 s - k * old_val) AND 0xFFFF,
                                    st_k := k - 1\<rparr>))) of
                   Inl e \<Rightarrow> Inl e
                 | Inr s1 \<Rightarrow>
                     (let backup = offset - st_last_match s1;
                          s2 = (if backup \<ge> cx_blength C + CHUNK_SIZE
                                   \<and> cx_end C - offset > CHUNK_SIZE
                                then
                                  (let flush_end = offset - cx_blength C
                                   in if flush_end > st_lit_start s1 then
                                        s1\<lparr>st_instructions := st_instructions s1
                                              @ [(''literal'', DeltaLiteral (st_lit_start s1)
                                                    (py_slice (cx_mv C) (st_lit_start s1) flush_end))],
                                           st_lit_start := flush_end,
                                           st_last_match := flush_end\<rparr>
                                      else s1)
                                else s1)
                      in Inr (s2\<lparr>st_offset := offset + 1\<rparr>))))"

text \<open>One iteration of \<open>while offset < end and k > 0\<close>.\<close>

definition loop_body :: "MatchCtx \<Rightarrow> MatchState \<Rightarrow> error + MatchState loop_exit" where
  "loop_body C s =
     (case find_match C s of
        Inl e \<Rightarrow> Inl e
      | Inr (Some matched_index, s1) \<Rightarrow> emit_match C matched_index s1
      | Inr (None, s1) \<Rightarrow>
          (case no_match C s1 of Inl e \<Rightarrow> Inl e | Inr s2 \<Rightarrow> Inr (Continue s2)))"

text \<open>
  The loop \<open>while offset < end and k > 0\<close>.  Every iteration that does not leave the
  loop moves \<open>offset\<close> forward, so the loop ends.
\<close>

function hash_search :: "MatchCtx \<Rightarrow> MatchState \<Rightarrow> error + MatchState" where
  "hash_search C s =
     (if st_offset s < cx_end C \<and> st_k s > 0 then
        (case loop_body C s of
           Inl e \<Rightarrow> Inl e
         | Inr (Break s') \<Rightarrow> Inr s'
         | Inr (Continue s') \<Rightarrow> hash_search C s')
      else Inr s)"
  by pat_completeness auto
termination
proof (relation "measure (\<lambda>(C, s). nat (cx_end C - st_offset s))", goal_cases)
  case 1
  show ?case by simp
next
  case (2 C s r s')
  have adv: "advance_aligned bl off p = Some q \<Longrightarrow> off \<le> fst q" for bl off p q
  proof (induction bl off p rule: advance_aligned.induct)
    case (1 blength offset aligned_offset aligned_i)
    then show ?case
      by (subst (asm) (2) advance_aligned.simps) (auto split: if_splits)
  qed
  have al: "aligned_match C w st mi s = Inr (mi', st', s1)
            \<Longrightarrow> st_offset s \<le> st_offset s1 \<and> st_k s1 = st_k s" for w st mi mi' st' s1
    using adv[of "cx_blength C" "st_offset s" "(st_aligned_offset s, st_aligned_i s)"]
    by (auto simp: aligned_match_def Let_def split: option.splits if_splits prod.splits)
  have fm: "find_match C s = Inr (m, s1) \<Longrightarrow> st_offset s \<le> st_offset s1 \<and> st_k s1 = st_k s"
    for m s1
    using al
    by (auto simp: find_match_def Let_def split: option.splits if_splits sum.splits prod.splits)
  have em: "emit_match C mi s1 = Inr (Continue s2) \<Longrightarrow> st_offset s2 = st_offset s1 + st_k s1"
    for mi s1 s2
    by (auto simp: emit_match_def Let_def split: if_splits sum.splits prod.splits)
  have nm: "no_match C s1 = Inr s2 \<Longrightarrow> st_offset s2 = st_offset s1 + 1" for s1 s2
    by (auto simp: no_match_def Let_def split: if_splits sum.splits prod.splits)
  have "st_offset s < st_offset s'"
    using 2 fm em nm
    by (fastforce simp: loop_body_def split: sum.splits prod.splits option.splits)
  then show ?case using 2 by simp
qed

declare hash_search.simps [simp del]

text \<open>
  \<open>generate_delta\<close>.  The whole-file digest \<open>sender_file_sum\<close> is computed by a library
  accumulator; \<open>file_sum\<close> stands for it.
\<close>

definition sum_match_bytes :: "Instruction list \<Rightarrow> int" where
  "sum_match_bytes ins =
     sum_list (map (\<lambda>(cmd, p). case p of DeltaMatch bi off n \<Rightarrow> n | DeltaLiteral off d \<Rightarrow> 0)
                 (filter (\<lambda>(cmd, p). cmd = ''match''
                                      \<and> (case p of DeltaMatch bi off n \<Rightarrow> True | DeltaLiteral off d \<Rightarrow> False)) ins))"

definition sum_literal_bytes :: "Instruction list \<Rightarrow> int" where
  "sum_literal_bytes ins =
     sum_list (map (\<lambda>(cmd, p). case p of DeltaMatch bi off n \<Rightarrow> 0 | DeltaLiteral off d \<Rightarrow> len d)
                 (filter (\<lambda>(cmd, p). cmd = ''literal''
                                      \<and> (case p of DeltaMatch bi off n \<Rightarrow> False | DeltaLiteral off d \<Rightarrow> True)) ins))"

definition generate_delta ::
  "ChecksumEngine \<Rightarrow> Config \<Rightarrow> (bytes \<Rightarrow> bytes) \<Rightarrow> ChecksumSignature \<Rightarrow> bytes
     \<Rightarrow> error + DeltaInstructions" where
  "generate_delta E cfg file_sum signature new_file_data =
     (case validate_data new_file_data (Some MAX_FILE_SIZE_IN_MEMORY) 0 of
        Inl e \<Rightarrow> Inl e
      | Inr _ \<Rightarrow>
          (let hash_table = new_HashTable cfg (blocks signature);
               mv = new_file_data;
               file_len = len mv;
               blength = block_size signature;
               last_block_len = (if blocks signature \<noteq> []
                                 then blk_length (last (blocks signature)) else 0);
               end_pos = (if last_block_len > 0 then file_len + 1 - last_block_len else 0);
               k = min blength file_len
           in case (if k > 0 then
                      (case rolling_checksum_optimized mv 0 (Some k) of
                         Inl e \<Rightarrow> Inl e
                       | Inr weak0 \<Rightarrow> Inr (checksum_components weak0))
                    else Inr (0, 0)) of
                Inl e \<Rightarrow> Inl e
              | Inr (s1, s2) \<Rightarrow>
                  (let C = \<lparr>cx_engine = E, cx_updating = UPDATING_BASIS_FILE cfg,
                            cx_signature = signature, cx_hash_table = hash_table,
                            cx_mv = mv, cx_file_len = file_len, cx_blength = blength,
                            cx_end = end_pos, cx_s2length = s2length signature\<rparr>;
                       s0 = \<lparr>st_offset = 0, st_k = k, st_s1 = s1, st_s2 = s2,
                             st_lit_start = 0, st_want_i = 0, st_last_match = 0,
                             st_aligned_offset = 0, st_aligned_i = 0, st_same_offset = {},
                             st_instructions = []\<rparr>
                   in case hash_search C s0 of
                        Inl e \<Rightarrow> Inl e
                      | Inr s \<Rightarrow>
                          (let ins = (if st_lit_start s < file_len
                                      then st_instructions s
                                             @ [(''literal'', DeltaLiteral (st_lit_start s)
                                                   (py_slice mv (st_lit_start s) file_len))]
                                      else st_instructions s);
                               match_bytes = sum_match_bytes ins;
                               literal_bytes = sum_literal_bytes ins;
                               total_bytes = match_bytes + literal_bytes;
                               ratio = (if total_bytes > 0
                                        then real_of_int match_bytes / real_of_int total_bytes
                                        else 0)
                           in Inr \<lparr>original_file_size = file_size signature,
                                   new_file_size = len new_file_data,
                                   delta_block_size = block_size signature,
                                   instructions = ins,
                                   compression_ratio = ratio,
                                   sender_file_sum =
                                     (if COMPUTE_SENDER_FILE_SUM cfg
                                      then Some (file_sum new_file_data) else None)\<rparr>))))"

subsection \<open>Instruction ranges and the loop invariant\<close>

text \<open>
  Specification-side notions for the claims about the matcher.  An instruction covers
  the positions from its offset (\<open>offset_in_new\<close> of a match, \<open>offset\<close> of a literal)
  up to its offset plus its length (\<open>length\<close> of a match, the number of data bytes of a
  literal).  \<open>chain P a ins b\<close>: the instructions of \<open>ins\<close> cover \<open>[a, b)\<close> one after
  the other without gap or overlap, each one is not empty and satisfies \<open>P\<close>.
\<close>

fun instr_offset :: "Instruction \<Rightarrow> int" where
  "instr_offset (cmd, DeltaMatch bi off n) = off"
| "instr_offset (cmd, DeltaLiteral off d) = off"

fun instr_length :: "Instruction \<Rightarrow> int" where
  "instr_length (cmd, DeltaMatch bi off n) = n"
| "instr_length (cmd, DeltaLiteral off d) = len d"

fun well_tagged :: "Instruction \<Rightarrow> bool" where
  "well_tagged (cmd, DeltaMatch bi off n) = (cmd = ''match'')"
| "well_tagged (cmd, DeltaLiteral off d) = (cmd = ''literal'')"

definition covers :: "int \<Rightarrow> Instruction \<Rightarrow> bool" where
  "covers p i = (instr_offset i \<le> p \<and> p < instr_offset i + instr_length i)"

fun chain :: "(Instruction \<Rightarrow> bool) \<Rightarrow> int \<Rightarrow> Instruction list \<Rightarrow> int \<Rightarrow> bool" where
  "chain P a [] b = (a = b)"
| "chain P a (i # r) b =
     (P i \<and> instr_offset i = a \<and> 0 < instr_length i \<and> chain P (a + instr_length i) r b)"

text \<open>
  What the loop guarantees of each instruction it appends: a literal carries the bytes
  of the new data at its offset; a match has the length of the window at its offset,
  names a block of the signature, and the strong checksum of the window agrees with
  the stored one on the compared prefix.
\<close>

fun emitted :: "MatchCtx \<Rightarrow> Instruction \<Rightarrow> bool" where
  "emitted C (cmd, DeltaLiteral off d) =
     (cmd = ''literal'' \<and> 0 \<le> off \<and> off + len d \<le> cx_file_len C
      \<and> d = window (cx_mv C) off (len d))"
| "emitted C (cmd, DeltaMatch bi off n) =
     (cmd = ''match'' \<and> 0 \<le> off \<and> off + n \<le> cx_file_len C
      \<and> n = min (cx_blength C) (cx_file_len C - off)
      \<and> 0 \<le> bi \<and> bi < len (blocks (cx_signature C))
      \<and> strong_eq C (strong_checksum_func (cx_engine C) (window (cx_mv C) off n))
           (block_at C bi))"

text \<open>
  The invariant of the loop at its head: the pending literal starts at \<open>lit_start\<close>,
  the instructions cover \<open>[0, lit_start)\<close>, \<open>k\<close> is the length of the window at
  \<open>offset\<close> and \<open>(s1, s2)\<close> are the two sums of that window.
\<close>

definition match_inv :: "MatchCtx \<Rightarrow> MatchState \<Rightarrow> bool" where
  "match_inv C s =
     (0 \<le> st_lit_start s \<and> st_lit_start s \<le> st_offset s \<and> st_offset s \<le> cx_file_len C
      \<and> st_k s = min (cx_blength C) (cx_file_len C - st_offset s)
      \<and> chain (emitted C) 0 (st_instructions s) (st_lit_start s)
      \<and> 0 \<le> st_want_i s \<and> 0 \<le> st_aligned_i s
      \<and> (st_s1 s, st_s2 s)
          = checksum_components (pack_weak (window (cx_mv C) (st_offset s) (st_k s))))"

text \<open>The fields that the search for a match leaves alone.\<close>

definition same_progress :: "MatchState \<Rightarrow> MatchState \<Rightarrow> bool" where
  "same_progress s s1 =
     (st_k s1 = st_k s \<and> st_s1 s1 = st_s1 s \<and> st_s2 s1 = st_s2 s
      \<and> st_lit_start s1 = st_lit_start s \<and> st_last_match s1 = st_last_match s
      \<and> st_instructions s1 = st_instructions s)"

text \<open>The loop context as \<open>generate_delta\<close> sets it up.\<close>

definition ctx_ok :: "Config \<Rightarrow> MatchCtx \<Rightarrow> bool" where
  "ctx_ok cfg C =
     (cx_file_len C = len (cx_mv C)
      \<and> cx_hash_table C = new_HashTable cfg (blocks (cx_signature C)))"

text \<open>What holds when the loop is left: the instructions cover \<open>[0, lit_start)\<close>.\<close>

definition match_post :: "MatchCtx \<Rightarrow> MatchState \<Rightarrow> bool" where
  "match_post C s =
     (0 \<le> st_lit_start s \<and> st_lit_start s \<le> cx_file_len C
      \<and> chain (emitted C) 0 (st_instructions s) (st_lit_start s))"

text \<open>The context that \<open>generate_delta\<close> builds for a signature and new data.\<close>

definition delta_ctx :: "ChecksumEngine \<Rightarrow> Config \<Rightarrow> ChecksumSignature \<Rightarrow> bytes \<Rightarrow> MatchCtx" where
  "delta_ctx E cfg signature new_file_data =
     \<lparr>cx_engine = E, cx_updating = UPDATING_BASIS_FILE cfg,
      cx_signature = signature, cx_hash_table = new_HashTable cfg (blocks signature),
      cx_mv = new_file_data, cx_file_len = len new_file_data,
      cx_blength = block_size signature,
      cx_end = (let last_block_len = (if blocks signature \<noteq> []
                                      then blk_length (last (blocks signature)) else 0)
                in if last_block_len > 0 then len new_file_data + 1 - last_block_len else 0),
      cx_s2length = s2length signature\<rparr>"

text \<open>
  The state in which \<open>generate_delta\<close> enters the loop, the instruction list after the
  final flush, and the compression ratio of an instruction list.
\<close>

definition delta_init :: "ChecksumSignature \<Rightarrow> bytes \<Rightarrow> MatchState" where
  "delta_init signature new_file_data =
     (let k = min (block_size signature) (len new_file_data)
      in case checksum_components (pack_weak (window new_file_data 0 k)) of
           (s1, s2) \<Rightarrow>
             \<lparr>st_offset = 0, st_k = k, st_s1 = s1, st_s2 = s2,
              st_lit_start = 0, st_want_i = 0, st_last_match = 0,
              st_aligned_offset = 0, st_aligned_i = 0, st_same_offset = {},
              st_instructions = []\<rparr>)"

definition final_flush :: "bytes \<Rightarrow> MatchState \<Rightarrow> Instruction list" where
  "final_flush mv s =
     (if st_lit_start s < len mv
      then st_instructions s
             @ [(''literal'', DeltaLiteral (st_lit_start s) (py_slice mv (st_lit_start s) (len mv)))]
      else st_instructions s)"

definition ratio_of :: "Instruction list \<Rightarrow> real" where
  "ratio_of ins =
     (if sum_match_bytes ins + sum_literal_bytes ins > 0
      then real_of_int (sum_match_bytes ins)
             / real_of_int (sum_match_bytes ins + sum_literal_bytes ins)
      else 0)"

subsection \<open>Signatures of a basis and false matches\<close>




subsection \<open>The delta of a file against its own signature\<close>







section \<open>Properties\<close>

subsection \<open>Masks, indexing and windows\<close>

lemma and_ffff: "(x::int) AND 0xFFFF = x mod 65536"
proof -
  have "(0xFFFF::int) = mask 16" by (simp add: mask_eq_exp_minus_1)
  then have "x AND 0xFFFF = take_bit 16 x" by (simp add: take_bit_eq_mask)
  then show ?thesis by (simp add: take_bit_eq_mod)
qed

lemma py_get_in: "0 \<le> i \<Longrightarrow> i < len xs \<Longrightarrow> py_get xs i = Inr (xs ! nat i)"
  by (simp add: py_get_def)

lemma mod_helper:
  "((x::int) mod m + n * (y mod m) + w) mod m = (x + n * y + w) mod m"
  by (intro mod_add_cong mod_mult_cong refl) simp_all

lemma window_Cons:
  assumes "0 \<le> off" "1 \<le> k" "off + k \<le> len D"
  shows "window D off k = D ! nat off # window D (off + 1) (k - 1)"
proof -
  have lt: "nat off < length D" using assms by (simp add: len_def)
  have k: "nat k = Suc (nat (k - 1))" using assms by simp
  have o1: "nat (off + 1) = Suc (nat off)" using assms by simp
  show ?thesis
    unfolding window_def k o1 using lt
    by (simp add: Cons_nth_drop_Suc[symmetric])
qed

lemma window_snoc:
  assumes "0 \<le> off" "1 \<le> k" "off + k \<le> len D"
  shows "window D off k = window D off (k - 1) @ [D ! nat (off + k - 1)]"
proof -
  have k: "nat k = Suc (nat (k - 1))" using assms by simp
  have lt: "nat (k - 1) < length (drop (nat off) D)" using assms by (simp add: len_def)
  have ix: "nat (off + k - 1) = nat off + nat (k - 1)" using assms by simp
  show ?thesis
    unfolding window_def k ix using lt
    by (simp add: take_Suc_conv_app_nth)
qed

lemma len_window:
  "0 \<le> off \<Longrightarrow> 0 \<le> k \<Longrightarrow> off + k \<le> len D \<Longrightarrow> len (window D off k) = k"
  by (simp add: window_def len_def)

lemma wsum1_snoc: "wsum1 (ws @ [b]) = wsum1 ws + uint b"
  by (induction ws) simp_all

lemma wsum2_snoc: "wsum2 (ws @ [b]) = wsum2 ws + wsum1 ws + uint b"
  by (induction ws) (simp_all add: len_def algebra_simps)

subsection \<open>The weak checksum is the packed pair of window sums\<close>

lemma rc_loop_closed:
  "0 \<le> off \<Longrightarrow> off + int j + int n \<le> len data \<Longrightarrow>
   0 \<le> a1 \<Longrightarrow> a1 < 65536 \<Longrightarrow> 0 \<le> a2 \<Longrightarrow> a2 < 65536 \<Longrightarrow>
   rc_loop data off [j..<j + n] (a1, a2) =
     Inr ((a1 + wsum1 (take n (drop (nat off + j) data))) mod 65536,
          (a2 + int n * a1 + wsum2 (take n (drop (nat off + j) data))) mod 65536)"
proof (induction n arbitrary: j a1 a2)
  case 0
  then show ?case by simp
next
  case (Suc n)
  have lt: "nat off + j < length data" using Suc.prems by (simp add: len_def)
  have g: "py_get data (off + int j) = Inr (data ! (nat off + j))"
    using Suc.prems by (simp add: py_get_in len_def nat_add_distrib)
  have up: "[j..<j + Suc n] = j # [Suc j..<Suc j + n]" by (simp add: upt_conv_Cons)
  have td: "take (Suc n) (drop (nat off + j) data)
            = data ! (nat off + j) # take n (drop (nat off + Suc j) data)"
    using lt by (simp add: Cons_nth_drop_Suc[symmetric])
  have ih: "rc_loop data off [Suc j..<Suc j + n] (b1 mod 65536, b2 mod 65536) =
     Inr ((b1 mod 65536 + wsum1 (take n (drop (nat off + Suc j) data))) mod 65536,
          (b2 mod 65536 + int n * (b1 mod 65536)
             + wsum2 (take n (drop (nat off + Suc j) data))) mod 65536)" for b1 b2
    using Suc.IH[of "Suc j" "b1 mod 65536" "b2 mod 65536"] Suc.prems by simp
  have ln: "len (take n (drop (Suc (nat off + j)) data)) = int n"
    using Suc.prems by (simp add: len_def)
  have step: "rc_loop data off (j # [Suc j..<Suc j + n]) (a1, a2) =
      rc_loop data off [Suc j..<Suc j + n]
        ((a1 + uint (data ! (nat off + j))) mod 65536,
         (a2 + (a1 + uint (data ! (nat off + j))) mod 65536) mod 65536)"
    by (simp add: g CHAR_OFFSET_def and_ffff Let_def del: upt_Suc)
  show ?case
    unfolding up td step ih
    apply (simp add: ln del: upt_Suc)
    apply (simp add: mod_simps)
    apply (simp only: mod_helper)
    apply (simp add: algebra_simps)
    done
qed

lemma rolling_checksum_window:
  assumes "0 \<le> off" "0 \<le> k" "off + k \<le> len D"
  shows "rolling_checksum D off (Some k) = Inr (pack_weak (window D off k))"
proof -
  have "rc_loop D off [0..<0 + nat k] (0, 0) =
     Inr ((0 + wsum1 (take (nat k) (drop (nat off + 0) D))) mod 65536,
          (0 + int (nat k) * 0 + wsum2 (take (nat k) (drop (nat off + 0) D))) mod 65536)"
    by (rule rc_loop_closed) (use assms in auto)
  then show ?thesis
    by (simp add: rolling_checksum_def pack_weak_def window_def)
qed

lemma components_pack:
  assumes "0 \<le> t1" "t1 < 65536" "0 \<le> t2" "t2 < 65536"
  shows "checksum_components ((t1 AND 0xFFFF) OR push_bit 16 t2) = (t1, t2)"
proof -
  have m: "(0xFFFF::int) = mask 16" by (simp add: mask_eq_exp_minus_1)
  have t1: "take_bit 16 t1 = t1" using assms by (simp add: take_bit_eq_mod)
  have t2: "take_bit 16 t2 = t2" using assms by (simp add: take_bit_eq_mod)
  have d1: "drop_bit 16 t1 = 0" using assms by (simp add: drop_bit_eq_div)
  show ?thesis
    unfolding checksum_components_def m take_bit_eq_mask[symmetric]
    by (simp add: t1 t2 d1 take_bit_push_bit drop_bit_push_bit)
qed

lemma components_pack_weak:
  "checksum_components (pack_weak W) = (wsum1 W mod 65536, wsum2 W mod 65536)"
  unfolding pack_weak_def by (rule components_pack) simp_all

subsection \<open>Shrink and slide\<close>

lemma shrink_weak_pack:
  "shrink_weak (pack_weak W) b k =
     (((wsum1 W - b) mod 65536) AND 0xFFFF) OR push_bit 16 ((wsum2 W - k * b) mod 65536)"
  unfolding shrink_weak_def components_pack_weak
  by (simp add: shrink_update_def CHAR_OFFSET_def and_ffff combine_checksum_def mod_simps)

lemma rolling_update_mod:
  "rolling_update b c (A mod 65536) (B mod 65536) k =
     ((A - b + c) mod 65536, (B - k * b + (A - b + c)) mod 65536)"
proof -
  have 1: "(A mod 65536 - b + c) mod 65536 = (A - b + c) mod 65536"
    by (intro mod_add_cong mod_diff_cong refl) simp_all
  have 2: "(B mod 65536 - k * b + (A - b + c) mod 65536) mod 65536
           = (B - k * b + (A - b + c)) mod 65536"
    by (intro mod_add_cong mod_diff_cong refl) simp_all
  show ?thesis
    unfolding rolling_update_def Let_def CHAR_OFFSET_def and_ffff
    by (simp only: add_0_right 1 2)
qed

lemma slide_weak_pack:
  "slide_weak (pack_weak W) b c k =
     (((wsum1 W - b + c) mod 65536) AND 0xFFFF)
       OR push_bit 16 ((wsum2 W - k * b + (wsum1 W - b + c)) mod 65536)"
  unfolding slide_weak_def components_pack_weak
  by (simp add: rolling_update_mod combine_checksum_def and_ffff)

lemma shrink_weak_window:
  assumes "0 \<le> off" "1 \<le> k" "off + k \<le> len D"
  shows "shrink_weak (pack_weak (window D off k)) (uint (D ! nat off)) k
         = pack_weak (window D (off + 1) (k - 1))"
proof -
  have l: "len (window D (off + 1) (k - 1)) = k - 1"
    using assms by (intro len_window) auto
  show ?thesis
    unfolding shrink_weak_pack window_Cons[OF assms]
    by (simp add: l pack_weak_def)
qed

lemma slide_weak_window:
  assumes "1 \<le> off" "1 \<le> k" "off + k \<le> len D"
  shows "slide_weak (pack_weak (window D (off - 1) k))
           (uint (D ! nat (off - 1))) (uint (D ! nat (off + k - 1))) k
         = pack_weak (window D off k)"
proof -
  have l: "len (window D off (k - 1)) = k - 1"
    using assms by (intro len_window) auto
  have w1: "window D (off - 1) k = D ! nat (off - 1) # window D off (k - 1)"
    using window_Cons[of "off - 1" k D] assms by simp
  have w2: "window D off k = window D off (k - 1) @ [D ! nat (off + k - 1)]"
    using window_snoc[of off k D] assms by simp
  have e1: "wsum1 (window D (off - 1) k) - uint (D ! nat (off - 1)) + uint (D ! nat (off + k - 1))
            = wsum1 (window D off k)"
    unfolding w1 by (subst w2) (simp add: wsum1_snoc)
  have e2: "wsum2 (window D (off - 1) k) - k * uint (D ! nat (off - 1)) + wsum1 (window D off k)
            = wsum2 (window D off k)"
    unfolding w1 by (subst (1 2) w2) (simp add: wsum1_snoc wsum2_snoc l algebra_simps)
  show ?thesis
    unfolding slide_weak_pack e1 e2 by (simp add: pack_weak_def)
qed

text \<open>
  Claim C3, as the code has it.  For a window \<open>D[off : off + k]\<close> of at least one byte
  inside \<open>D\<close>: the shrink update with \<open>old_byte = D[off]\<close> and the pre-shrink length
  \<open>k\<close> turns the weak checksum of \<open>D[off : off + k]\<close> into the weak checksum that
  \<open>rolling_checksum\<close> computes from scratch on \<open>D[off + 1 : off + k]\<close> (the window loses
  its first byte and keeps its right end); and when \<open>off \<ge> 1\<close>, \<open>rolling_update\<close> with
  \<open>old_byte = D[off - 1]\<close> and \<open>new_byte = D[off + k - 1]\<close> turns the weak checksum of
  \<open>D[off - 1 : off + k - 1]\<close> into the one computed from scratch on \<open>D[off : off + k]\<close>.
\<close>

theorem C3_rolling_updates_recompute:
  assumes "0 \<le> off" "1 \<le> k" "off + k \<le> len D"
  shows "\<exists>w w'. rolling_checksum D off (Some k) = Inr w
           \<and> rolling_checksum D (off + 1) (Some (k - 1)) = Inr w'
           \<and> shrink_weak w (uint (D ! nat off)) k = w'
           \<and> (1 \<le> off \<longrightarrow>
                (\<exists>v. rolling_checksum D (off - 1) (Some k) = Inr v
                   \<and> slide_weak v (uint (D ! nat (off - 1))) (uint (D ! nat (off + k - 1))) k = w))"
proof -
  have a: "rolling_checksum D off (Some k) = Inr (pack_weak (window D off k))"
    using assms by (intro rolling_checksum_window) auto
  have b: "rolling_checksum D (off + 1) (Some (k - 1)) = Inr (pack_weak (window D (off + 1) (k - 1)))"
    using assms by (intro rolling_checksum_window) auto
  have c: "1 \<le> off \<Longrightarrow> rolling_checksum D (off - 1) (Some k) = Inr (pack_weak (window D (off - 1) k))"
    using assms by (intro rolling_checksum_window) auto
  show ?thesis
    using a b c shrink_weak_window[OF assms] slide_weak_window[of off k D] assms
    by auto
qed

theorem C3_rolling_updates_witness:
  "rolling_checksum [1, 2, 3] 1 (Some 2) = Inr 458757
   \<and> rolling_checksum [1, 2, 3] 2 (Some 1) = Inr 196611
   \<and> shrink_weak 458757 2 2 = 196611
   \<and> rolling_checksum [1, 2, 3] 0 (Some 2) = Inr 262147
   \<and> slide_weak 262147 1 3 2 = 458757"
  using C3_rolling_updates_recompute [of 1 2 "[1, 2, 3]"]
  by (simp add: len_def rolling_checksum_def shrink_weak_def slide_weak_def shrink_update_def
        rolling_update_def checksum_components_def combine_checksum_def py_get_def
        CHAR_OFFSET_def upt_rec)

text \<open>
  The claim as stated fails: the window of the claim keeps its start and loses its last
  byte.  On \<open>D = [1, 2]\<close>, \<open>off = 0\<close>, \<open>k = 2\<close> the shrink update applied to the weak
  checksum of \<open>D[0:2]\<close> is not the weak checksum of \<open>D[0:1]\<close>, neither with
  \<open>old_byte = D[0]\<close> (what the matcher passes) nor with \<open>old_byte = D[1]\<close> (the byte that
  left the claim's window).
\<close>

theorem C3_shrink_keeps_right_end_counterexample:
  "rolling_checksum [1, 2] 0 (Some 2) = Inr 262147
   \<and> rolling_checksum [1, 2] 0 (Some 1) = Inr 65537
   \<and> shrink_weak 262147 1 2 \<noteq> 65537
   \<and> shrink_weak 262147 2 2 \<noteq> 65537"
  by (simp add: len_def rolling_checksum_def shrink_weak_def shrink_update_def
        checksum_components_def combine_checksum_def py_get_def CHAR_OFFSET_def upt_rec)

section \<open>Applying a delta\<close>

lemma apply_instruction_contribution:
  "apply_instruction B bs result (cmd, p) = result @ contribution B bs cmd p"
  by (cases p) (simp_all add: Let_def)

lemma foldl_apply_instruction:
  "foldl (apply_instruction B bs) acc ins
     = acc @ concat (map (\<lambda>(cmd, p). contribution B bs cmd p) ins)"
  by (induction ins arbitrary: acc) (auto simp: apply_instruction_contribution)

lemma contribution_erase_offset:
  "(case erase_offset i of (cmd, p) \<Rightarrow> contribution B bs cmd p)
     = (case i of (cmd, p) \<Rightarrow> contribution B bs cmd p)"
  by (cases i rule: erase_offset.cases) simp_all

lemma py_slice_nonneg:
  "0 \<le> a \<Longrightarrow> a \<le> b \<Longrightarrow> py_slice xs a b = take (nat (b - a)) (drop (nat a) xs)"
proof -
  assume a: "0 \<le> a" "a \<le> b"
  have "py_slice xs a b = drop (nat a) (take (nat b) xs)"
    using a by (auto simp: py_slice_def py_bound_def len_def min_def max_def)
  also have "\<dots> = take (nat b - nat a) (drop (nat a) xs)"
    by (simp add: drop_take)
  finally show ?thesis using a by (simp add: nat_diff_distrib)
qed

text \<open>
  Claim C10, as the code has it.  For a basis of at most \<open>MAX_FILE_SIZE_IN_MEMORY\<close>
  bytes, \<open>apply_delta\<close> returns on every instruction list, and the bytes returned are
  the concatenation, in list order, of what each instruction contributes: the slice
  \<open>basis[bi * bs : bi * bs + n]\<close> for a \<open>'match'\<close>-tagged \<open>DeltaMatch\<close>, the data of a
  \<open>'literal'\<close>-tagged \<open>DeltaLiteral\<close> and nothing for every other instruction.  The
  result does not change when every offset field is erased, and a match whose range
  starts at a non-negative position contributes the possibly shorter, possibly empty
  part of the range that lies inside the basis.
\<close>

theorem C10_apply_delta_total:
  assumes "len B \<le> MAX_FILE_SIZE_IN_MEMORY"
  shows "apply_delta B delta
           = Inr (concat (map (\<lambda>(cmd, p). contribution B (delta_block_size delta) cmd p)
                    (instructions delta)))
         \<and> apply_delta B (delta\<lparr>instructions := map erase_offset (instructions delta)\<rparr>)
           = apply_delta B delta
         \<and> (0 \<le> bi * bs \<and> 0 \<le> n \<longrightarrow>
              contribution B bs ''match'' (DeltaMatch bi off n)
                = take (nat n) (drop (nat (bi * bs)) B))
         \<and> (cmd \<noteq> ''match'' \<and> cmd \<noteq> ''literal'' \<longrightarrow> contribution B bs cmd p = [])"
proof -
  have 1: "apply_delta B d
           = Inr (concat (map (\<lambda>(cmd, p). contribution B (delta_block_size d) cmd p)
                    (instructions d)))" for d
    using assms by (simp add: apply_delta_def validate_data_def foldl_apply_instruction len_def)
  have 2: "map ((\<lambda>(cmd, p). contribution B c cmd p) \<circ> erase_offset) ins
           = map (\<lambda>(cmd, p). contribution B c cmd p) ins" for c ins
    by (rule map_cong) (simp_all add: contribution_erase_offset)
  have 3: "0 \<le> bi * bs \<and> 0 \<le> n \<longrightarrow>
              contribution B bs ''match'' (DeltaMatch bi off n)
                = take (nat n) (drop (nat (bi * bs)) B)"
    by (simp add: py_slice_nonneg)
  have 4: "cmd \<noteq> ''match'' \<and> cmd \<noteq> ''literal'' \<longrightarrow> contribution B bs cmd p = []"
    by (cases p) simp_all
  show ?thesis
    using 3 4 by (simp add: 1 2)
qed

theorem C10_apply_delta_witness:
  "apply_delta [1, 2, 3]
     \<lparr>original_file_size = 3, new_file_size = 2, delta_block_size = 2,
      instructions = [(''match'', DeltaMatch 1 99 5), (''skip'', DeltaLiteral 0 [9]),
                      (''literal'', DeltaMatch 0 0 2), (''literal'', DeltaLiteral 7 [8])],
      compression_ratio = 0, sender_file_sum = None\<rparr>
   = Inr [3, 8]
   \<and> contribution [1, 2, 3] 2 ''match'' (DeltaMatch 1 99 5) = [3]
   \<and> contribution [1, 2, 3] 2 ''skip'' (DeltaLiteral 0 [9]) = []"
  using C10_apply_delta_total [where B = "[1, 2, 3]" and bi = 1 and bs = 2 and n = 5
     and off = 99 and cmd = "''skip''" and p = "DeltaLiteral 0 [9]" and delta =
     "\<lparr>original_file_size = 3, new_file_size = 2, delta_block_size = 2,
      instructions = [(''match'', DeltaMatch 1 99 5), (''skip'', DeltaLiteral 0 [9]),
                      (''literal'', DeltaMatch 0 0 2), (''literal'', DeltaLiteral 7 [8])],
      compression_ratio = 0, sender_file_sum = None\<rparr>"]
  by (simp add: len_def MAX_FILE_SIZE_IN_MEMORY_def py_slice_def py_bound_def)

text \<open>
  The claim as stated fails: \<open>apply_delta\<close> validates the basis first, and a basis of
  \<open>MAX_FILE_SIZE_IN_MEMORY + 1\<close> bytes raises ResourceLimitError on the empty
  instruction list.
\<close>

theorem C10_apply_delta_raises_counterexample:
  "apply_delta (replicate 104857601 0)
     \<lparr>original_file_size = 0, new_file_size = 0, delta_block_size = 16,
      instructions = [], compression_ratio = 0, sender_file_sum = None\<rparr>
   = Inl ResourceLimitError"
  by (simp add: apply_delta_def validate_data_def len_def MAX_FILE_SIZE_IN_MEMORY_def)

section \<open>Negotiation\<close>

lemma server_loop_disjoint:
  "local_set \<inter> set remote = {} \<Longrightarrow> server_loop local_set remote = Inl ProtocolError"
  by (induction remote) auto

lemma client_loop_disjoint:
  "local_set \<inter> set remote = {} \<Longrightarrow> client_loop rank local_set remote st = st"
  by (induction remote arbitrary: st) auto

lemma choose_no_overlap:
  "set local_pref \<inter> set remote_list = {} \<Longrightarrow>
   choose_from_remote_list am_server local_pref remote_list = Inl ProtocolError"
  by (simp add: choose_from_remote_list_def Let_def server_loop_disjoint client_loop_disjoint)


section \<open>Wire codec\<close>

subsection \<open>Fixed-width integers\<close>

lemma uint_byte_of_int: "uint (word_of_int x :: byte) = x mod 256"
  by (simp add: uint_word_of_int take_bit_eq_mod)

lemma from_le_le_bytes: "from_le (le_bytes n v) = v mod 2 ^ (8 * n)"
proof (induction n arbitrary: v)
  case 0
  then show ?case by simp
next
  case (Suc n)
  have "v mod (256 * 2 ^ (8 * n)) = 256 * (v div 256 mod 2 ^ (8 * n)) + v mod 256"
    by (rule zmod_zmult2_eq) simp
  then show ?case
    by (simp add: Suc.IH uint_byte_of_int power_add algebra_simps)
qed

lemma length_le_bytes [simp]: "length (le_bytes n v) = n"
  by (induction n arbitrary: v) simp_all

lemma from_bytes_signed_le_bytes:
  assumes "0 < n" "- (2 ^ (8 * n - 1)) \<le> v" "v < 2 ^ (8 * n - 1)"
  shows "from_bytes_signed (le_bytes n v) = v"
proof -
  have p: "(2::int) ^ (8 * n) = 2 * 2 ^ (8 * n - 1)"
    using assms(1) by (metis Suc_pred' mult_pos_pos power_Suc zero_less_numeral)
  show ?thesis
  proof (cases "0 \<le> v")
    case True
    then have "v mod 2 ^ (8 * n) = v" using assms p by simp
    then show ?thesis using assms True
      by (simp add: from_bytes_signed_def from_le_le_bytes Let_def)
  next
    case False
    have "0 \<le> v + 2 ^ (8 * n)" "v + 2 ^ (8 * n) < 2 ^ (8 * n)"
      using assms p False by simp_all
    then have "(v + 2 ^ (8 * n)) mod 2 ^ (8 * n) = v + 2 ^ (8 * n)"
      by (rule mod_pos_pos_trivial)
    then have "v mod 2 ^ (8 * n) = v + 2 ^ (8 * n)"
      by simp
    then show ?thesis using assms False p
      by (simp add: from_bytes_signed_def from_le_le_bytes Let_def)
  qed
qed

lemma read_bytes_append:
  "len d = n \<Longrightarrow> read_bytes (d @ rest) n = Inr (d, rest)"
  by (auto simp: read_bytes_def len_def)

lemma read_int_write:
  assumes "- (2 ^ 31) \<le> v" "v < 2 ^ 31"
  shows "read_int (le_bytes 4 v @ rest) = Inr (v, rest)"
proof -
  have "from_bytes_signed (le_bytes 4 v) = v"
    by (rule from_bytes_signed_le_bytes) (use assms in simp_all)
  then show ?thesis
    by (simp add: read_int_def read_bytes_append len_def)
qed

subsection \<open>Sum header\<close>

lemma write_int_ok: "- (2 ^ 31) \<le> v \<Longrightarrow> v < 2 ^ 31 \<Longrightarrow> write_int v = Inr (le_bytes 4 v)"
  by (simp add: write_int_def struct_pack_i_def)

lemma then_write_Inr [simp]: "then_write (Inr x) (Inr y) = Inr (x @ y)"
  by (simp add: then_write_def)

lemma then_write_Inl [simp]: "then_write (Inl e) b = Inl e"
  by (simp add: then_write_def)

text \<open>
  Claim C6, as the code has it.  For every header whose fields satisfy the reader's
  bounds and whose count fits the int32 the writer packs, and for every protocol
  version \<open>P\<close>: \<open>write_sum_head\<close> succeeds, writes 16 bytes for \<open>P \<ge> 27\<close> and 12
  bytes otherwise (the strong-prefix length is not sent), and \<open>read_sum_head\<close> on
  these bytes returns the header and consumes exactly them; for \<open>P < 27\<close> the header
  returned carries \<open>CSUM_LENGTH\<close> in place of the strong-prefix length.
\<close>

theorem C6_sum_head_roundtrip:
  fixes h :: SumHead
  assumes "0 \<le> sh_count h" "sh_count h < 2 ^ 31"
    and "0 \<le> sh_blength h"
    and "sh_blength h \<le> (if P < 30 then OLD_MAX_BLOCK_SIZE else MAX_BLOCK_SIZE)"
    and "0 \<le> sh_s2length h" "sh_s2length h \<le> MAX_DIGEST_LEN"
    and "0 \<le> sh_remainder h" "sh_remainder h \<le> sh_blength h"
  shows "\<exists>out. write_sum_head (Some h) P = Inr out
           \<and> len out = (if P \<ge> 27 then 16 else 12)
           \<and> read_sum_head (out @ rest) P
               = Inr (if P \<ge> 27 then h else h\<lparr>sh_s2length := CSUM_LENGTH\<rparr>, rest)"
proof -
  have b: "sh_blength h < 2 ^ 31"
    using assms(4) by (simp add: OLD_MAX_BLOCK_SIZE_def MAX_BLOCK_SIZE_def split: if_splits)
  have s: "sh_s2length h < 2 ^ 31" using assms(6) by (simp add: MAX_DIGEST_LEN_def)
  have r: "sh_remainder h < 2 ^ 31" using assms(8) b by simp
  have wc: "write_int (sh_count h) = Inr (le_bytes 4 (sh_count h))"
    using assms by (intro write_int_ok) simp_all
  have wb: "write_int (sh_blength h) = Inr (le_bytes 4 (sh_blength h))"
    using assms b by (intro write_int_ok) simp_all
  have ws: "write_int (sh_s2length h) = Inr (le_bytes 4 (sh_s2length h))"
    using assms s by (intro write_int_ok) simp_all
  have wr: "write_int (sh_remainder h) = Inr (le_bytes 4 (sh_remainder h))"
    using assms r by (intro write_int_ok) simp_all
  have rc: "read_int (le_bytes 4 (sh_count h) @ x) = Inr (sh_count h, x)" for x
    using assms by (intro read_int_write) simp_all
  have rb: "read_int (le_bytes 4 (sh_blength h) @ x) = Inr (sh_blength h, x)" for x
    using assms b by (intro read_int_write) simp_all
  have rs: "read_int (le_bytes 4 (sh_s2length h) @ x) = Inr (sh_s2length h, x)" for x
    using assms s by (intro read_int_write) simp_all
  have rr: "read_int (le_bytes 4 (sh_remainder h) @ x) = Inr (sh_remainder h, x)" for x
    using assms r by (intro read_int_write) simp_all
  show ?thesis
  proof (cases "P \<ge> 27")
    case True
    have w: "write_sum_head (Some h) P
             = Inr (le_bytes 4 (sh_count h) @ le_bytes 4 (sh_blength h)
                    @ le_bytes 4 (sh_s2length h) @ le_bytes 4 (sh_remainder h))"
      using True by (simp add: write_sum_head_def wc wb ws wr)
    have "read_sum_head ((le_bytes 4 (sh_count h) @ le_bytes 4 (sh_blength h)
                    @ le_bytes 4 (sh_s2length h) @ le_bytes 4 (sh_remainder h)) @ rest) P
          = Inr (h, rest)"
      using True assms by (simp add: read_sum_head_def rc rb rs rr Let_def)
    then show ?thesis using True w by (simp add: len_def)
  next
    case False
    have w: "write_sum_head (Some h) P
             = Inr (le_bytes 4 (sh_count h) @ le_bytes 4 (sh_blength h)
                    @ le_bytes 4 (sh_remainder h))"
      using False by (simp add: write_sum_head_def wc wb wr)
    have "read_sum_head ((le_bytes 4 (sh_count h) @ le_bytes 4 (sh_blength h)
                    @ le_bytes 4 (sh_remainder h)) @ rest) P
          = Inr (h\<lparr>sh_s2length := CSUM_LENGTH\<rparr>, rest)"
      using False assms
      by (simp add: read_sum_head_def rc rb rr Let_def CSUM_LENGTH_def SHORT_SUM_LENGTH_def
            MAX_DIGEST_LEN_def)
    then show ?thesis using False w by (simp add: len_def)
  qed
qed

theorem C6_sum_head_witness:
  "write_sum_head (Some \<lparr>sh_count = 100, sh_blength = 4096, sh_s2length = 16, sh_remainder = 512\<rparr>) 30
     = Inr [100, 0, 0, 0, 0, 16, 0, 0, 16, 0, 0, 0, 0, 2, 0, 0]
   \<and> read_sum_head ([100, 0, 0, 0, 0, 16, 0, 0, 16, 0, 0, 0, 0, 2, 0, 0] @ [7]) 30
     = Inr (\<lparr>sh_count = 100, sh_blength = 4096, sh_s2length = 16, sh_remainder = 512\<rparr>, [7])"
proof -
  have w: "write_sum_head (Some \<lparr>sh_count = 100, sh_blength = 4096, sh_s2length = 16, sh_remainder = 512\<rparr>) 30
     = Inr [100, 0, 0, 0, 0, 16, 0, 0, 16, 0, 0, 0, 0, 2, 0, 0]"
    by code_simp
  show ?thesis
    using C6_sum_head_roundtrip [of "\<lparr>sh_count = 100, sh_blength = 4096, sh_s2length = 16, sh_remainder = 512\<rparr>" 30 "[7]"]
    unfolding w
    by (simp add: MAX_BLOCK_SIZE_def MAX_DIGEST_LEN_def)
qed

theorem C6_sum_head_protocol26_example:
  "write_sum_head (Some \<lparr>sh_count = 50, sh_blength = 8192, sh_s2length = 16, sh_remainder = 0\<rparr>) 26
     = Inr [50, 0, 0, 0, 0, 32, 0, 0, 0, 0, 0, 0]
   \<and> read_sum_head ([50, 0, 0, 0, 0, 32, 0, 0, 0, 0, 0, 0] @ []) 26
     = Inr (\<lparr>sh_count = 50, sh_blength = 8192, sh_s2length = 2, sh_remainder = 0\<rparr>, [])"
proof -
  have w: "write_sum_head (Some \<lparr>sh_count = 50, sh_blength = 8192, sh_s2length = 16, sh_remainder = 0\<rparr>) 26
     = Inr [50, 0, 0, 0, 0, 32, 0, 0, 0, 0, 0, 0]"
    by code_simp
  show ?thesis
    using C6_sum_head_roundtrip [of "\<lparr>sh_count = 50, sh_blength = 8192, sh_s2length = 16, sh_remainder = 0\<rparr>" 26 "[]"]
    unfolding w
    by (simp add: OLD_MAX_BLOCK_SIZE_def MAX_DIGEST_LEN_def CSUM_LENGTH_def SHORT_SUM_LENGTH_def)
qed

text \<open>
  The claim as stated fails: its validity condition bounds the count only from below,
  and a count of \<open>2^31\<close> cannot be packed as int32, so \<open>write_sum_head\<close> raises
  \<open>struct.error\<close>.
\<close>

theorem C6_sum_head_count_counterexample:
  "write_sum_head (Some \<lparr>sh_count = 2147483648, sh_blength = 0, sh_s2length = 0, sh_remainder = 0\<rparr>) 30
     = Inl StructError"
  by (simp add: write_sum_head_def write_int_def struct_pack_i_def)

section \<open>Receiver\<close>










subsection \<open>varint and varlong\<close>

text \<open>
  The prefix byte determines the number of extra bytes: checked for every prefix byte
  the writers can produce.
\<close>

lemma extra_full_all:
  "\<forall>d\<in>set [0..5]. INT_BYTE_EXTRA ! nat (((NOT (push_bit (nat (7 - d)) (1::int) - 1)) AND 0xFF) div 4) = d + 1
      \<and> ((NOT (push_bit (nat (7 - d)) (1::int) - 1)) AND 0xFF) AND (push_bit (nat (7 - d)) 1 - 1) = 0
      \<and> 0 \<le> ((NOT (push_bit (nat (7 - d)) (1::int) - 1)) AND 0xFF)
      \<and> ((NOT (push_bit (nat (7 - d)) (1::int) - 1)) AND 0xFF) < 256"
  by code_simp

lemma extra_part_all:
  "\<forall>d\<in>set [1..5]. \<forall>x\<in>set [0..push_bit (nat (7 - d)) 1 - 1].
      INT_BYTE_EXTRA ! nat (((x OR ((NOT (push_bit (nat (7 - d)) 1 * 2 - 1)) AND 0xFF)) AND 0xFF) div 4) = d
      \<and> ((x OR ((NOT (push_bit (nat (7 - d)) 1 * 2 - 1)) AND 0xFF)) AND 0xFF) AND (push_bit (nat (8 - d)) 1 - 1) = x
      \<and> 0 \<le> ((x OR ((NOT (push_bit (nat (7 - d)) 1 * 2 - 1)) AND 0xFF)) AND 0xFF)
      \<and> ((x OR ((NOT (push_bit (nat (7 - d)) 1 * 2 - 1)) AND 0xFF)) AND 0xFF) < 256"
  by code_simp

lemma extra_none_all:
  "\<forall>x\<in>set [0..127]. INT_BYTE_EXTRA ! nat ((x AND 0xFF) div 4) = 0"
  by code_simp

lemma py_bound_in: "0 \<le> i \<Longrightarrow> i \<le> len xs \<Longrightarrow> py_bound xs i = nat i"
  by (simp add: py_bound_def len_def)

lemma py_prefix_nonneg: "0 \<le> b \<Longrightarrow> py_prefix xs b = take (nat b) xs"
  by (auto simp: py_prefix_def py_bound_def len_def min_def max_def)

lemma py_set_slice_in:
  "0 \<le> a \<Longrightarrow> a \<le> b \<Longrightarrow> b \<le> len buf \<Longrightarrow>
   py_set_slice buf a b data = take (nat a) buf @ data @ drop (nat b) buf"
  by (simp add: py_set_slice_def py_bound_in max_def)

lemma set_item_0: "set_item (x # xs) 0 v = word_of_int v # xs"
  by (simp add: set_item_def)

lemma uint_byte_id: "0 \<le> h \<Longrightarrow> h < 256 \<Longrightarrow> uint (word_of_int h :: byte) = h"
  by (simp add: uint_byte_of_int)

lemma strip_cnt_spec:
  assumes "m \<le> k" "k \<le> length P" "drop k P = replicate (length P - k) 0"
  shows "\<exists>c. strip_cnt (0 # P) (int m) (int k) = int c \<and> m \<le> c \<and> c \<le> k
           \<and> drop c P = replicate (length P - c) 0
           \<and> (m < c \<longrightarrow> P ! (c - 1) \<noteq> 0)"
  using assms
proof (induction k)
  case 0
  then show ?case by (subst strip_cnt.simps) auto
next
  case (Suc k)
  show ?case
  proof (cases "m < Suc k \<and> P ! k = 0")
    case True
    have kl: "k < length P" using Suc.prems by simp
    have "drop k P = P ! k # drop (Suc k) P" using kl by (simp add: Cons_nth_drop_Suc)
    also have "\<dots> = replicate (length P - k) 0"
      using True Suc.prems kl by (simp add: Suc_diff_Suc replicate_Suc[symmetric] del: replicate_Suc)
    finally have dk: "drop k P = replicate (length P - k) 0" .
    have "strip_cnt (0 # P) (int m) (int (Suc k)) = strip_cnt (0 # P) (int m) (int k)"
      using True by (subst strip_cnt.simps) (simp add: nat_add_distrib)
    then show ?thesis
      using Suc.IH[OF _ _ dk] True Suc.prems by auto
  next
    case False
    have "strip_cnt (0 # P) (int m) (int (Suc k)) = int (Suc k)"
      using False by (subst strip_cnt.simps) (auto simp: nat_add_distrib)
    then show ?thesis using False Suc.prems
      by (intro exI[of _ "Suc k"]) auto
  qed
qed

lemma read_varlong_prefix:
  assumes m: "1 \<le> mb" "mb \<le> 8" and lp: "len pre = mb - 1"
  shows "read_bytes (h # pre @ xs) mb = Inr (h # pre, xs)"
    and "(if mb > 1 then py_set_slice (replicate 9 (0::byte)) 0 (mb - 1) (py_slice (h # pre) 1 mb)
          else replicate 9 0) = pre @ replicate (nat (10 - mb)) 0"
proof -
  show "read_bytes (h # pre @ xs) mb = Inr (h # pre, xs)"
    using read_bytes_append[of "h # pre" mb xs] lp by (simp add: len_def)
  have sl: "py_slice (h # pre) 1 mb = pre"
    using m lp by (simp add: py_slice_nonneg len_def)
  show "(if mb > 1 then py_set_slice (replicate 9 (0::byte)) 0 (mb - 1) (py_slice (h # pre) 1 mb)
          else replicate 9 0) = pre @ replicate (nat (10 - mb)) 0"
  proof (cases "mb > 1")
    case True
    have "py_set_slice (replicate 9 (0::byte)) 0 (mb - 1) pre
          = take (nat 0) (replicate 9 0) @ pre @ drop (nat (mb - 1)) (replicate 9 0)"
      using m True by (intro py_set_slice_in) (simp_all add: len_def)
    moreover have "9 - nat (mb - 1) = nat (10 - mb)" using m by simp
    ultimately show ?thesis using True sl by simp
  next
    case False
    then have "mb = 1" using m by simp
    then show ?thesis using lp by (simp add: len_def)
  qed
qed

lemma read_varlong_noextra:
  assumes m: "1 \<le> mb" "mb \<le> 8" and lp: "len pre = mb - 1"
    and ex: "INT_BYTE_EXTRA ! nat ((uint h AND 0xFF) div 4) = 0"
  shows "read_varlong (h # pre @ rest) mb
         = Inr (from_bytes_signed (take 8 ((pre @ replicate (nat (10 - mb)) 0)[nat (mb - 1) := h])), rest)"
proof -
  have g: "(mb < 1 \<or> mb > 8) = False" using m by simp
  note p = read_varlong_prefix(1)[OF m lp, of h rest] read_varlong_prefix(2)[OF m lp, of h]
  show ?thesis
    unfolding read_varlong_def
    apply (simp only: g if_False p sum.case prod.case Let_def nth_Cons_0 ex)
    apply (simp add: set_item_def py_prefix_nonneg)
    done
qed

lemma read_varlong_extra:
  assumes m: "1 \<le> mb" "mb \<le> 8" and lp: "len pre = mb - 1"
    and ex: "INT_BYTE_EXTRA ! nat ((uint h AND 0xFF) div 4) = e"
    and e: "0 < e" "mb + e \<le> 9" and lt: "len tail = e"
  shows "read_varlong (h # pre @ tail @ rest) mb
         = Inr (from_bytes_signed
                  (take 8 ((pre @ tail @ replicate (nat (10 - mb - e)) 0)
                     [nat (mb + e - 1) := word_of_int (uint h AND (push_bit (nat (8 - e)) 1 - 1))])),
                rest)"
proof -
  have g: "(mb < 1 \<or> mb > 8) = False" using m by simp
  note p = read_varlong_prefix(1)[OF m lp, of h "tail @ rest"] read_varlong_prefix(2)[OF m lp, of h]
  have ne: "(e \<noteq> 0) = True" using e by simp
  have fit: "(mb + e > len (pre @ replicate (nat (10 - mb)) (0::byte))) = False"
    using m e lp by (simp add: len_def)
  have rt: "read_bytes (tail @ rest) e = Inr (tail, rest)"
    using read_bytes_append[of tail e rest] lt by simp
  have ss: "py_set_slice (pre @ replicate (nat (10 - mb)) 0) (mb - 1) (mb - 1 + e) tail
            = pre @ tail @ replicate (nat (10 - mb - e)) 0"
  proof -
    have "py_set_slice (pre @ replicate (nat (10 - mb)) (0::byte)) (mb - 1) (mb - 1 + e) tail
          = take (nat (mb - 1)) (pre @ replicate (nat (10 - mb)) 0) @ tail
            @ drop (nat (mb - 1 + e)) (pre @ replicate (nat (10 - mb)) 0)"
      using m e lp by (intro py_set_slice_in) (simp_all add: len_def)
    moreover have "length pre = nat (mb - 1)" using lp m by (simp add: len_def)
    moreover have "nat (mb - 1 + e) - nat (mb - 1) = nat e" using m e by simp
    moreover have "nat (10 - mb) - nat e = nat (10 - mb - e)" using m e by simp
    moreover have "nat (mb - 1) \<le> nat (mb - 1 + e)" using m e by simp
    ultimately show ?thesis by simp
  qed
  show ?thesis
    unfolding read_varlong_def
    apply (simp only: g if_False if_True p sum.case prod.case Let_def nth_Cons_0 ex ne fit rt ss)
    apply (simp add: set_item_def py_prefix_nonneg)
    done
qed

lemma zero_tail_nth:
  assumes "drop c P = replicate (length P - c) (0::byte)" "c \<le> i" "i < length P"
  shows "P ! i = 0"
proof -
  have "P ! i = drop c P ! (i - c)" using assms(2,3) by simp
  also have "\<dots> = 0" unfolding assms(1) using assms by simp
  finally show ?thesis .
qed

lemma final_full:
  assumes "length P = n" "c \<le> n" "drop c P = replicate (length P - c) (0::byte)"
  shows "take n ((take c P @ replicate (Suc n - c) 0)[c := 0]) = P"
proof (rule nth_equalityI)
  show "length (take n ((take c P @ replicate (Suc n - c) 0)[c := 0])) = length P"
    using assms by simp
next
  fix i assume "i < length (take n ((take c P @ replicate (Suc n - c) 0)[c := 0]))"
  then have i: "i < n" by simp
  show "take n ((take c P @ replicate (Suc n - c) 0)[c := 0]) ! i = P ! i"
  proof (cases "i < c")
    case True
    then show ?thesis using i assms by (simp add: nth_append)
  next
    case False
    then have "P ! i = 0" using zero_tail_nth[OF assms(3), of i] i assms by simp
    then show ?thesis using False i assms by (simp add: nth_append nth_list_update)
  qed
qed

lemma final_part:
  assumes "length P = n" "1 \<le> c" "c \<le> n" "drop c P = replicate (length P - c) (0::byte)"
  shows "take n ((take (c - 1) P @ replicate (Suc (Suc n) - c) 0)[c - 1 := P ! (c - 1)]) = P"
proof (rule nth_equalityI)
  show "length (take n ((take (c - 1) P @ replicate (Suc (Suc n) - c) 0)[c - 1 := P ! (c - 1)])) = length P"
    using assms by simp
next
  fix i assume "i < length (take n ((take (c - 1) P @ replicate (Suc (Suc n) - c) 0)[c - 1 := P ! (c - 1)]))"
  then have i: "i < n" by simp
  show "take n ((take (c - 1) P @ replicate (Suc (Suc n) - c) 0)[c - 1 := P ! (c - 1)]) ! i = P ! i"
  proof (cases "i < c")
    case True
    then show ?thesis using i assms by (auto simp: nth_append nth_list_update)
  next
    case False
    then have "P ! i = 0" using zero_tail_nth[OF assms(4), of i] i assms by simp
    moreover have "\<not> i < c - 1" "i \<noteq> c - 1" using False assms(2) by simp_all
    ultimately show ?thesis using i assms by (simp add: nth_append nth_list_update)
  qed
qed

lemma write_buf: "length p = n \<Longrightarrow> py_set_slice (replicate (Suc n) (0::byte)) 1 (int (Suc n)) p = 0 # p"
proof -
  assume l: "length p = n"
  have "py_set_slice (replicate (Suc n) (0::byte)) 1 (int (Suc n)) p
        = take (nat 1) (replicate (Suc n) 0) @ p @ drop (nat (int (Suc n))) (replicate (Suc n) 0)"
    by (intro py_set_slice_in) (simp_all add: len_def)
  then show ?thesis by simp
qed

lemma write_varlong_shape:
  assumes m: "1 \<le> mb" "mb \<le> 8" and v: "- (2 ^ 63) \<le> v" "v < 2 ^ 63"
  obtains c where "nat mb \<le> c" "c \<le> 8"
    and "drop c (le_bytes 8 v) = replicate (8 - c) 0"
    and "nat mb < c \<longrightarrow> le_bytes 8 v ! (c - 1) \<noteq> 0"
    and "write_varlong v mb =
               (if uint (le_bytes 8 v ! (c - 1)) \<ge> push_bit (nat (7 - int c + mb)) (1::int)
                then Inr (word_of_int ((NOT (push_bit (nat (7 - int c + mb)) (1::int) - 1)) AND 0xFF)
                          # take c (le_bytes 8 v))
                else if int c > mb
                then Inr (word_of_int ((uint (le_bytes 8 v ! (c - 1))
                                        OR ((NOT (push_bit (nat (7 - int c + mb)) (1::int) * 2 - 1)) AND 0xFF))
                                       AND 0xFF)
                          # take (c - 1) (le_bytes 8 v))
                else Inr (le_bytes 8 v ! (c - 1) # take (c - 1) (le_bytes 8 v)))"
proof -
  define P where "P = le_bytes 8 v"
  have lP: "length P = 8" by (simp add: P_def)
  have g: "(mb < 1 \<or> mb > 8) = False" using m by simp
  have pk: "struct_pack_q v = Inr P" using v by (simp add: struct_pack_q_def P_def)
  have wb: "py_set_slice (replicate 9 (0::byte)) 1 9 P = 0 # P"
    using write_buf[of P 8] lP by simp
  have "\<exists>c. strip_cnt (0 # P) (int (nat mb)) (int 8) = int c \<and> nat mb \<le> c \<and> c \<le> 8
           \<and> drop c P = replicate (length P - c) 0
           \<and> (nat mb < c \<longrightarrow> P ! (c - 1) \<noteq> 0)"
    by (rule strip_cnt_spec) (use m lP in simp_all)
  then obtain c where c: "strip_cnt (0 # P) (int (nat mb)) (int 8) = int c" "nat mb \<le> c" "c \<le> 8"
      "drop c P = replicate (length P - c) 0" "nat mb < c \<longrightarrow> P ! (c - 1) \<noteq> 0"
    by blast
  have sc: "strip_cnt (0 # P) mb 8 = int c" using c(1) m by simp
  have c1: "1 \<le> c" using c(2) m by simp
  have nth: "(0 # P) ! nat (int c) = P ! (c - 1)" using c1 by (simp add: nth_Cons')
  have pa: "py_prefix (set_item (0 # P) 0 x) (int c + 1) = word_of_int x # take c P" for x
    by (simp add: set_item_0 py_prefix_nonneg nat_add_distrib)
  have pb: "py_prefix (set_item (0 # P) 0 x) (int c) = word_of_int x # take (c - 1) P" for x
    using c1 by (simp add: set_item_0 py_prefix_nonneg take_Cons')
  have wv: "write_varlong v mb =
               (if uint (P ! (c - 1)) \<ge> push_bit (nat (7 - int c + mb)) (1::int)
                then Inr (word_of_int ((NOT (push_bit (nat (7 - int c + mb)) (1::int) - 1)) AND 0xFF)
                          # take c P)
                else if int c > mb
                then Inr (word_of_int ((uint (P ! (c - 1))
                                        OR ((NOT (push_bit (nat (7 - int c + mb)) (1::int) * 2 - 1)) AND 0xFF))
                                       AND 0xFF)
                          # take (c - 1) P)
                else Inr (P ! (c - 1) # take (c - 1) P))"
    unfolding write_varlong_def
    apply (simp only: g if_False pk sum.case Let_def wb sc nth pa pb)
    apply simp
    done
  show thesis
  proof (rule that[of c])
    show "nat mb \<le> c" "c \<le> 8" by (rule c)+
    show "drop c (le_bytes 8 v) = replicate (8 - c) 0" using c(4) lP by (simp add: P_def)
    show "nat mb < c \<longrightarrow> le_bytes 8 v ! (c - 1) \<noteq> 0" using c(5) by (simp add: P_def)
    show "write_varlong v mb =
               (if uint (le_bytes 8 v ! (c - 1)) \<ge> push_bit (nat (7 - int c + mb)) (1::int)
                then Inr (word_of_int ((NOT (push_bit (nat (7 - int c + mb)) (1::int) - 1)) AND 0xFF)
                          # take c (le_bytes 8 v))
                else if int c > mb
                then Inr (word_of_int ((uint (le_bytes 8 v ! (c - 1))
                                        OR ((NOT (push_bit (nat (7 - int c + mb)) (1::int) * 2 - 1)) AND 0xFF))
                                       AND 0xFF)
                          # take (c - 1) (le_bytes 8 v))
                else Inr (le_bytes 8 v ! (c - 1) # take (c - 1) (le_bytes 8 v)))"
      using wv unfolding P_def .
  qed
qed

lemma split_take:
  "a \<le> c \<Longrightarrow> c \<le> length P \<Longrightarrow> take a P @ drop a (take c P) = take c P"
proof -
  assume "a \<le> c" "c \<le> length P"
  then have "take a P = take a (take c P)" by (simp add: min_absorb1)
  then show ?thesis by (simp only: append_take_drop_id)
qed

lemma read_varlong_extra_body:
  assumes m: "1 \<le> mb" "mb \<le> 8"
    and ex: "INT_BYTE_EXTRA ! nat ((uint h AND 0xFF) div 4) = e"
    and e: "0 < e" "mb + e \<le> 9" and lb: "len body = mb - 1 + e"
  shows "read_varlong (h # body @ rest) mb
         = Inr (from_bytes_signed
                  (take 8 ((body @ replicate (nat (10 - mb - e)) 0)
                     [nat (mb + e - 1) := word_of_int (uint h AND (push_bit (nat (8 - e)) 1 - 1))])),
                rest)"
proof -
  define pre where "pre = take (nat (mb - 1)) body"
  define tail where "tail = drop (nat (mb - 1)) body"
  have b: "body = pre @ tail" by (simp add: pre_def tail_def)
  have lp: "len pre = mb - 1" using m e lb by (simp add: pre_def len_def)
  have lt: "len tail = e" using m e lb by (simp add: tail_def len_def)
  show ?thesis
    unfolding b append_assoc by (rule read_varlong_extra[OF m lp ex e lt])
qed

lemma varlong_roundtrip:
  assumes m: "3 \<le> mb" "mb \<le> 8" and v: "- (2 ^ 63) \<le> v" "v < 2 ^ 63"
  shows "\<exists>out. write_varlong v mb = Inr out \<and> read_varlong (out @ rest) mb = Inr (v, rest)"
proof -
  define P where "P = le_bytes 8 v"
  have lP: "length P = 8" by (simp add: P_def)
  have sg: "from_bytes_signed P = v"
    unfolding P_def by (rule from_bytes_signed_le_bytes) (use v in simp_all)
  have m1: "1 \<le> mb" using m by simp
  obtain c where c: "nat mb \<le> c" "c \<le> 8" "drop c P = replicate (8 - c) 0"
      "nat mb < c \<longrightarrow> P ! (c - 1) \<noteq> 0"
    and w: "write_varlong v mb =
               (if uint (P ! (c - 1)) \<ge> push_bit (nat (7 - int c + mb)) (1::int)
                then Inr (word_of_int ((NOT (push_bit (nat (7 - int c + mb)) (1::int) - 1)) AND 0xFF)
                          # take c P)
                else if int c > mb
                then Inr (word_of_int ((uint (P ! (c - 1))
                                        OR ((NOT (push_bit (nat (7 - int c + mb)) (1::int) * 2 - 1)) AND 0xFF))
                                       AND 0xFF)
                          # take (c - 1) P)
                else Inr (P ! (c - 1) # take (c - 1) P))"
    using write_varlong_shape[OF m1 m(2) v] unfolding P_def[symmetric] .
  define d where "d = int c - mb"
  have d: "0 \<le> d" "d \<le> 5" using c m by (simp_all add: d_def)
  have bd: "7 - int c + mb = 7 - d" by (simp add: d_def)
  define x where "x = uint (P ! (c - 1))"
  have x: "0 \<le> x" "x < 256" using uint_bounded[of "P ! (c - 1)"] by (simp_all add: x_def)
  define pre where "pre = take (nat mb - 1) P"
  have lpre: "len pre = mb - 1" using m lP by (simp add: pre_def len_def)
  have dz: "drop c P = replicate (length P - c) 0" using c lP by simp
  have c1: "1 \<le> c" using c m by simp
  show ?thesis
  proof (cases "x \<ge> push_bit (nat (7 - d)) (1::int)")
    case True
    define hA where "hA = (NOT (push_bit (nat (7 - d)) (1::int) - 1)) AND 0xFF"
    have f: "INT_BYTE_EXTRA ! nat (hA div 4) = d + 1"
            "hA AND (push_bit (nat (7 - d)) 1 - 1) = 0" "0 \<le> hA" "hA < 256"
      using extra_full_all[rule_format, of d] d unfolding hA_def by simp_all
    have lb: "len (take c P) = mb - 1 + (d + 1)" using c m lP by (simp add: len_def d_def)
    have out: "write_varlong v mb = Inr (word_of_int hA # take c P)"
      using w True unfolding bd x_def[symmetric] hA_def[symmetric] by simp
    have uh: "uint (word_of_int hA :: byte) = hA" using f by (intro uint_byte_id)
    have ha: "hA AND 0xFF = hA" unfolding hA_def by simp
    have "read_varlong (word_of_int hA # take c P @ rest) mb
         = Inr (from_bytes_signed
                  (take 8 ((take c P @ replicate (nat (10 - mb - (d + 1))) 0)
                     [nat (mb + (d + 1) - 1) :=
                        word_of_int (uint (word_of_int hA :: byte)
                                     AND (push_bit (nat (8 - (d + 1))) 1 - 1))])),
                rest)"
      by (rule read_varlong_extra_body[OF m1 m(2) _ _ _ lb])
         (use d m c f in \<open>simp_all add: uh ha d_def\<close>)
    moreover have "nat (10 - mb - (d + 1)) = Suc 8 - c" "nat (mb + (d + 1) - 1) = c"
      using c by (simp_all add: d_def)
    moreover have "word_of_int (uint (word_of_int hA :: byte) AND (push_bit (nat (8 - (d + 1))) 1 - 1))
                   = (0::byte)"
      using f(2) by (simp add: uh)
    ultimately have "read_varlong (word_of_int hA # take c P @ rest) mb
         = Inr (from_bytes_signed (take 8 ((take c P @ replicate (Suc 8 - c) 0)[c := 0])), rest)"
      by (simp only:)
    then have "read_varlong (word_of_int hA # take c P @ rest) mb = Inr (v, rest)"
      using final_full[OF lP c(2) dz] sg by simp
    then show ?thesis using out by simp
  next
    case False
    note small = False
    show ?thesis
    proof (cases "int c > mb")
      case True
      have d1: "1 \<le> d" using True by (simp add: d_def)
      define hB where "hB = (x OR ((NOT (push_bit (nat (7 - d)) 1 * 2 - 1)) AND 0xFF)) AND 0xFF"
      have xin: "x \<in> set [0..push_bit (nat (7 - d)) 1 - 1]" using x small by simp
      have din: "d \<in> set [1..5]" using d d1 by simp
      have f: "INT_BYTE_EXTRA ! nat (hB div 4) = d"
              "hB AND (push_bit (nat (8 - d)) 1 - 1) = x" "0 \<le> hB" "hB < 256"
        using extra_part_all[rule_format, OF din xin] unfolding hB_def by simp_all
      have lb: "len (take (c - 1) P) = mb - 1 + d" using c m lP True by (simp add: len_def d_def)
      have out: "write_varlong v mb = Inr (word_of_int hB # take (c - 1) P)"
        using w small True unfolding bd x_def[symmetric] hB_def[symmetric] by simp
      have uh: "uint (word_of_int hB :: byte) = hB" using f by (intro uint_byte_id)
      have ha: "hB AND 0xFF = hB" unfolding hB_def by simp
      have "read_varlong (word_of_int hB # take (c - 1) P @ rest) mb
           = Inr (from_bytes_signed
                    (take 8 ((take (c - 1) P @ replicate (nat (10 - mb - d)) 0)
                       [nat (mb + d - 1) :=
                          word_of_int (uint (word_of_int hB :: byte)
                                       AND (push_bit (nat (8 - d)) 1 - 1))])),
                  rest)"
        by (rule read_varlong_extra_body[OF m1 m(2) _ _ _ lb])
           (use d d1 m c f in \<open>simp_all add: uh ha d_def\<close>)
      moreover have "nat (10 - mb - d) = Suc (Suc 8) - c" "nat (mb + d - 1) = c - 1"
        using c c1 by (simp_all add: d_def)
      moreover have "word_of_int (uint (word_of_int hB :: byte) AND (push_bit (nat (8 - d)) 1 - 1))
                     = P ! (c - 1)"
        using f(2) by (simp add: uh x_def)
      ultimately have "read_varlong (word_of_int hB # take (c - 1) P @ rest) mb
           = Inr (from_bytes_signed
                    (take 8 ((take (c - 1) P @ replicate (Suc (Suc 8) - c) 0)[c - 1 := P ! (c - 1)])),
                  rest)"
        by (simp only:)
      then have "read_varlong (word_of_int hB # take (c - 1) P @ rest) mb = Inr (v, rest)"
        using final_part[OF lP c1 c(2) dz] sg by simp
      then show ?thesis using out by simp
    next
      case False
      then have cm: "c = nat mb" using c by simp
      then have d0: "d = 0" using m by (simp add: d_def)
      have xs: "x < 128" using small d0 by simp
      have "x \<in> set [0..127]" using x xs by simp
      then have f: "INT_BYTE_EXTRA ! nat ((x AND 0xFF) div 4) = 0"
        using extra_none_all by blast
      have pc: "pre = take (c - 1) P" by (simp add: pre_def cm)
      have out: "write_varlong v mb = Inr (P ! (c - 1) # pre)"
        using w small False unfolding bd x_def[symmetric] pc by simp
      have "read_varlong (P ! (c - 1) # pre @ rest) mb
            = Inr (from_bytes_signed
                     (take 8 ((pre @ replicate (nat (10 - mb)) 0)[nat (mb - 1) := P ! (c - 1)])), rest)"
        by (rule read_varlong_noextra[OF m1 m(2) lpre]) (use f in \<open>simp add: x_def\<close>)
      moreover note pc
      moreover have "nat (10 - mb) = Suc (Suc 8) - c" "nat (mb - 1) = c - 1"
        using m by (simp_all add: cm)
      ultimately have "read_varlong (P ! (c - 1) # pre @ rest) mb
           = Inr (from_bytes_signed
                    (take 8 ((take (c - 1) P @ replicate (Suc (Suc 8) - c) 0)[c - 1 := P ! (c - 1)])),
                  rest)"
        by (simp only:)
      then have "read_varlong (P ! (c - 1) # pre @ rest) mb = Inr (v, rest)"
        using final_part[OF lP c1 c(2) dz] sg by simp
      then show ?thesis using out by simp
    qed
  qed
qed

lemma and_ffffffff: "(x::int) AND 0xFFFFFFFF = x mod 2 ^ 32"
proof -
  have "(0xFFFFFFFF::int) = mask 32" by (simp add: mask_eq_exp_minus_1)
  then have "x AND 0xFFFFFFFF = take_bit 32 x" by (simp add: take_bit_eq_mask)
  then show ?thesis by (simp add: take_bit_eq_mod)
qed

lemma and_ff: "(x::int) AND 0xFF = x mod 256"
proof -
  have "(0xFF::int) = mask 8" by (simp add: mask_eq_exp_minus_1)
  then have "x AND 0xFF = take_bit 8 x" by (simp add: take_bit_eq_mask)
  then show ?thesis by (simp add: take_bit_eq_mod)
qed

lemma uint_and_ff: "uint (h::byte) AND 0xFF = uint h"
  using uint_bounded[of h] by (simp add: and_ff)

lemma from_bytes_signed_masked:
  assumes "- (2 ^ 31) \<le> v" "v < 2 ^ 31"
  shows "from_bytes_signed (le_bytes 4 (v AND 0xFFFFFFFF)) = v"
proof -
  have "from_le (le_bytes 4 (v AND 0xFFFFFFFF)) = from_le (le_bytes 4 v)"
    by (simp add: from_le_le_bytes and_ffffffff)
  then have "from_bytes_signed (le_bytes 4 (v AND 0xFFFFFFFF)) = from_bytes_signed (le_bytes 4 v)"
    by (simp add: from_bytes_signed_def)
  also have "\<dots> = v" by (rule from_bytes_signed_le_bytes) (use assms in simp_all)
  finally show ?thesis .
qed

lemma read_varint_noextra:
  assumes ex: "INT_BYTE_EXTRA ! nat ((uint h AND 0xFF) div 4) = 0"
  shows "read_varint (h # rest) = Inr (from_bytes_signed [h, 0, 0, 0], rest)"
proof -
  have rb: "read_byte (h # rest) = Inr (uint h, rest)"
    by (simp add: read_byte_def read_bytes_def len_def)
  note uh = uint_and_ff[of h]
  show ?thesis
    unfolding read_varint_def
    apply (simp only: rb sum.case prod.case Let_def ex)
    apply (simp add: uh)
    done
qed

lemma read_varint_extra_body:
  assumes ex: "INT_BYTE_EXTRA ! nat ((uint h AND 0xFF) div 4) = e"
    and e: "0 < e" "e < 5" and lb: "len body = e"
  shows "read_varint (h # body @ rest)
         = Inr (from_bytes_signed
                  (take 4 ((body @ replicate (nat (5 - e)) 0)
                     [nat e := word_of_int (uint h AND (push_bit (nat (8 - e)) 1 - 1))])),
                rest)"
proof -
  have rb: "read_byte (h # body @ rest) = Inr (uint h, body @ rest)"
    by (simp add: read_byte_def read_bytes_def len_def)
  have ne: "(e \<noteq> 0) = True" "(e \<ge> 5) = False" using e by simp_all
  have rt: "read_bytes (body @ rest) e = Inr (body, rest)"
    using read_bytes_append[of body e rest] lb by simp
  have ss: "py_set_slice (replicate 5 (0::byte)) 0 e body = body @ replicate (nat (5 - e)) 0"
  proof -
    have "py_set_slice (replicate 5 (0::byte)) 0 e body
          = take (nat 0) (replicate 5 0) @ body @ drop (nat e) (replicate 5 0)"
      using e by (intro py_set_slice_in) (simp_all add: len_def)
    moreover have "5 - nat e = nat (5 - e)" using e by simp
    ultimately show ?thesis by simp
  qed
  show ?thesis
    unfolding read_varint_def
    apply (simp only: rb sum.case prod.case Let_def uint_and_ff ex[unfolded uint_and_ff] ne
             if_True if_False rt ss)
    apply (simp add: set_item_def py_prefix_nonneg)
    done
qed

lemma write_varint_shape:
  obtains c where "1 \<le> c" "c \<le> 4"
    and "drop c (le_bytes 4 (v AND 0xFFFFFFFF)) = replicate (4 - c) 0"
    and "write_varint v =
               (if uint (le_bytes 4 (v AND 0xFFFFFFFF) ! (c - 1)) \<ge> push_bit (nat (8 - int c)) (1::int)
                then Inr (word_of_int ((NOT (push_bit (nat (8 - int c)) (1::int) - 1)) AND 0xFF)
                          # take c (le_bytes 4 (v AND 0xFFFFFFFF)))
                else if int c > 1
                then Inr (word_of_int ((uint (le_bytes 4 (v AND 0xFFFFFFFF) ! (c - 1))
                                        OR ((NOT (push_bit (nat (8 - int c)) (1::int) * 2 - 1)) AND 0xFF))
                                       AND 0xFF)
                          # take (c - 1) (le_bytes 4 (v AND 0xFFFFFFFF)))
                else Inr [le_bytes 4 (v AND 0xFFFFFFFF) ! 0])"
proof -
  define P where "P = le_bytes 4 (v AND 0xFFFFFFFF)"
  have lP: "length P = 4" by (simp add: P_def)
  have "0 \<le> v AND 0xFFFFFFFF" "v AND 0xFFFFFFFF < 2 ^ 32" by (simp_all add: and_ffffffff)
  then have pk: "struct_pack_I (v AND 0xFFFFFFFF) = Inr P" by (simp add: struct_pack_I_def P_def)
  have wb: "py_set_slice (replicate 5 (0::byte)) 1 5 P = 0 # P"
    using write_buf[of P 4] lP by simp
  have "\<exists>c. strip_cnt (0 # P) (int 1) (int 4) = int c \<and> 1 \<le> c \<and> c \<le> 4
           \<and> drop c P = replicate (length P - c) 0
           \<and> (1 < c \<longrightarrow> P ! (c - 1) \<noteq> 0)"
    by (rule strip_cnt_spec) (use lP in simp_all)
  then obtain c where c: "strip_cnt (0 # P) (int 1) (int 4) = int c" "1 \<le> c" "c \<le> 4"
      "drop c P = replicate (length P - c) 0"
    by blast
  have sc: "strip_cnt (0 # P) 1 4 = int c" using c(1) by simp
  have nth: "(0 # P) ! nat (int c) = P ! (c - 1)" using c(2) by (simp add: nth_Cons')
  have nth1: "(0 # P) ! 1 = P ! 0" by simp
  have pa: "py_prefix (set_item (0 # P) 0 x) (int c + 1) = word_of_int x # take c P" for x
    by (simp add: set_item_0 py_prefix_nonneg nat_add_distrib)
  have pb: "py_prefix (set_item (0 # P) 0 x) (int c) = word_of_int x # take (c - 1) P" for x
    using c(2) by (simp add: set_item_0 py_prefix_nonneg take_Cons')
  have wv: "write_varint v =
               (if uint (P ! (c - 1)) \<ge> push_bit (nat (8 - int c)) (1::int)
                then Inr (word_of_int ((NOT (push_bit (nat (8 - int c)) (1::int) - 1)) AND 0xFF)
                          # take c P)
                else if int c > 1
                then Inr (word_of_int ((uint (P ! (c - 1))
                                        OR ((NOT (push_bit (nat (8 - int c)) (1::int) * 2 - 1)) AND 0xFF))
                                       AND 0xFF)
                          # take (c - 1) P)
                else Inr [P ! 0])"
    unfolding write_varint_def
    apply (simp only: pk sum.case Let_def wb sc nth nth1 pa pb)
    using c(2) apply (auto simp: take_Cons')
    done
  show thesis
  proof (rule that[of c])
    show "1 \<le> c" "c \<le> 4" by (rule c)+
    show "drop c (le_bytes 4 (v AND 0xFFFFFFFF)) = replicate (4 - c) 0"
      using c(4) lP by (simp add: P_def)
    show "write_varint v =
               (if uint (le_bytes 4 (v AND 0xFFFFFFFF) ! (c - 1)) \<ge> push_bit (nat (8 - int c)) (1::int)
                then Inr (word_of_int ((NOT (push_bit (nat (8 - int c)) (1::int) - 1)) AND 0xFF)
                          # take c (le_bytes 4 (v AND 0xFFFFFFFF)))
                else if int c > 1
                then Inr (word_of_int ((uint (le_bytes 4 (v AND 0xFFFFFFFF) ! (c - 1))
                                        OR ((NOT (push_bit (nat (8 - int c)) (1::int) * 2 - 1)) AND 0xFF))
                                       AND 0xFF)
                          # take (c - 1) (le_bytes 4 (v AND 0xFFFFFFFF)))
                else Inr [le_bytes 4 (v AND 0xFFFFFFFF) ! 0])"
      using wv unfolding P_def .
  qed
qed

lemma varint_roundtrip:
  assumes v: "- (2 ^ 31) \<le> v" "v < 2 ^ 31"
  shows "\<exists>out. write_varint v = Inr out \<and> read_varint (out @ rest) = Inr (v, rest)"
proof -
  define P where "P = le_bytes 4 (v AND 0xFFFFFFFF)"
  have lP: "length P = 4" by (simp add: P_def)
  have sg: "from_bytes_signed P = v"
    unfolding P_def by (rule from_bytes_signed_masked) (use v in simp_all)
  obtain c where c: "1 \<le> c" "c \<le> 4" "drop c P = replicate (4 - c) 0"
    and w: "write_varint v =
               (if uint (P ! (c - 1)) \<ge> push_bit (nat (8 - int c)) (1::int)
                then Inr (word_of_int ((NOT (push_bit (nat (8 - int c)) (1::int) - 1)) AND 0xFF)
                          # take c P)
                else if int c > 1
                then Inr (word_of_int ((uint (P ! (c - 1))
                                        OR ((NOT (push_bit (nat (8 - int c)) (1::int) * 2 - 1)) AND 0xFF))
                                       AND 0xFF)
                          # take (c - 1) P)
                else Inr [P ! 0])"
    using write_varint_shape[of v] unfolding P_def[symmetric] .
  define d where "d = int c - 1"
  have d: "0 \<le> d" "d \<le> 5" using c by (simp_all add: d_def)
  have bd: "8 - int c = 7 - d" by (simp add: d_def)
  define x where "x = uint (P ! (c - 1))"
  have x: "0 \<le> x" "x < 256" using uint_bounded[of "P ! (c - 1)"] by (simp_all add: x_def)
  have dz: "drop c P = replicate (length P - c) 0" using c lP by simp
  show ?thesis
  proof (cases "x \<ge> push_bit (nat (7 - d)) (1::int)")
    case True
    define hA where "hA = (NOT (push_bit (nat (7 - d)) (1::int) - 1)) AND 0xFF"
    have f: "INT_BYTE_EXTRA ! nat (hA div 4) = d + 1"
            "hA AND (push_bit (nat (7 - d)) 1 - 1) = 0" "0 \<le> hA" "hA < 256"
      using extra_full_all[rule_format, of d] d unfolding hA_def by simp_all
    have lb: "len (take c P) = d + 1" using c lP by (simp add: len_def d_def)
    have out: "write_varint v = Inr (word_of_int hA # take c P)"
      using w True unfolding bd x_def[symmetric] hA_def[symmetric] by simp
    have uh: "uint (word_of_int hA :: byte) = hA" using f by (intro uint_byte_id)
    have ha: "hA AND 0xFF = hA" unfolding hA_def by simp
    have "read_varint (word_of_int hA # take c P @ rest)
         = Inr (from_bytes_signed
                  (take 4 ((take c P @ replicate (nat (5 - (d + 1))) 0)
                     [nat (d + 1) :=
                        word_of_int (uint (word_of_int hA :: byte)
                                     AND (push_bit (nat (8 - (d + 1))) 1 - 1))])),
                rest)"
      by (rule read_varint_extra_body[OF _ _ _ lb])
         (use d c f in \<open>simp_all add: uh ha d_def\<close>)
    moreover have "nat (5 - (d + 1)) = Suc 4 - c" "nat (d + 1) = c"
      using c by (simp_all add: d_def)
    moreover have "word_of_int (uint (word_of_int hA :: byte) AND (push_bit (nat (8 - (d + 1))) 1 - 1))
                   = (0::byte)"
      using f(2) by (simp add: uh)
    ultimately have "read_varint (word_of_int hA # take c P @ rest)
         = Inr (from_bytes_signed (take 4 ((take c P @ replicate (Suc 4 - c) 0)[c := 0])), rest)"
      by (simp only:)
    then have "read_varint (word_of_int hA # take c P @ rest) = Inr (v, rest)"
      using final_full[OF lP c(2) dz] sg by simp
    then show ?thesis using out by simp
  next
    case False
    note small = False
    show ?thesis
    proof (cases "int c > 1")
      case True
      have d1: "1 \<le> d" using True by (simp add: d_def)
      define hB where "hB = (x OR ((NOT (push_bit (nat (7 - d)) 1 * 2 - 1)) AND 0xFF)) AND 0xFF"
      have xin: "x \<in> set [0..push_bit (nat (7 - d)) 1 - 1]" using x small by simp
      have din: "d \<in> set [1..5]" using d d1 by simp
      have f: "INT_BYTE_EXTRA ! nat (hB div 4) = d"
              "hB AND (push_bit (nat (8 - d)) 1 - 1) = x" "0 \<le> hB" "hB < 256"
        using extra_part_all[rule_format, OF din xin] unfolding hB_def by simp_all
      have lb: "len (take (c - 1) P) = d" using c lP True by (simp add: len_def d_def)
      have out: "write_varint v = Inr (word_of_int hB # take (c - 1) P)"
        using w small True unfolding bd x_def[symmetric] hB_def[symmetric] by simp
      have uh: "uint (word_of_int hB :: byte) = hB" using f by (intro uint_byte_id)
      have ha: "hB AND 0xFF = hB" unfolding hB_def by simp
      have "read_varint (word_of_int hB # take (c - 1) P @ rest)
           = Inr (from_bytes_signed
                    (take 4 ((take (c - 1) P @ replicate (nat (5 - d)) 0)
                       [nat d :=
                          word_of_int (uint (word_of_int hB :: byte)
                                       AND (push_bit (nat (8 - d)) 1 - 1))])),
                  rest)"
        by (rule read_varint_extra_body[OF _ _ _ lb])
           (use d d1 c f in \<open>simp_all add: uh ha d_def\<close>)
      moreover have "nat (5 - d) = Suc (Suc 4) - c" "nat d = c - 1"
        using c by (simp_all add: d_def)
      moreover have "word_of_int (uint (word_of_int hB :: byte) AND (push_bit (nat (8 - d)) 1 - 1))
                     = P ! (c - 1)"
        using f(2) by (simp add: uh x_def)
      ultimately have "read_varint (word_of_int hB # take (c - 1) P @ rest)
           = Inr (from_bytes_signed
                    (take 4 ((take (c - 1) P @ replicate (Suc (Suc 4) - c) 0)[c - 1 := P ! (c - 1)])),
                  rest)"
        by (simp only:)
      then have "read_varint (word_of_int hB # take (c - 1) P @ rest) = Inr (v, rest)"
        using final_part[OF lP c(1) c(2) dz] sg by simp
      then show ?thesis using out by simp
    next
      case False
      then have cm: "c = 1" using c by simp
      then have d0: "d = 0" by (simp add: d_def)
      have xs: "x < 128" using small d0 by simp
      have "x \<in> set [0..127]" using x xs by simp
      then have f: "INT_BYTE_EXTRA ! nat ((x AND 0xFF) div 4) = 0"
        using extra_none_all by blast
      have out: "write_varint v = Inr [P ! 0]"
        using w small False unfolding bd x_def[symmetric] by simp
      have "P = take 1 P @ drop 1 P" by simp
      also have "take 1 P = [P ! 0]" using lP by (simp add: take_Suc_conv_app_nth)
      also have "drop 1 P = [0, 0, 0]" using c(3) cm by (simp add: eval_nat_numeral)
      finally have PP: "[P ! 0, 0, 0, 0] = P" by simp
      have "read_varint (P ! 0 # rest) = Inr (from_bytes_signed [P ! 0, 0, 0, 0], rest)"
        by (rule read_varint_noextra) (use f in \<open>simp add: x_def cm\<close>)
      then have "read_varint (P ! 0 # rest) = Inr (v, rest)"
        unfolding PP sg .
      then show ?thesis using out by simp
    qed
  qed
qed

text \<open>
  Claim C5, as the code has it.  For every signed 32-bit \<open>v\<close>, \<open>write_varint\<close>
  succeeds and \<open>read_varint\<close> on its output returns \<open>v\<close> and consumes exactly the
  bytes written.  For every signed 64-bit \<open>w\<close> and every \<open>min_bytes\<close> from 3 to 8,
  \<open>write_varlong\<close> succeeds and \<open>read_varlong\<close> with the same \<open>min_bytes\<close> returns
  \<open>w\<close> and consumes exactly the bytes written.
\<close>

theorem C5_varint_varlong_roundtrip:
  "(- (2 ^ 31) \<le> v \<and> v < 2 ^ 31 \<longrightarrow>
      (\<exists>out. write_varint v = Inr out \<and> read_varint (out @ rest) = Inr (v, rest)))
   \<and> (- (2 ^ 63) \<le> w \<and> w < 2 ^ 63 \<and> 3 \<le> min_bytes \<and> min_bytes \<le> 8 \<longrightarrow>
      (\<exists>out. write_varlong w min_bytes = Inr out
         \<and> read_varlong (out @ rest) min_bytes = Inr (w, rest)))"
  using varint_roundtrip[of v rest] varlong_roundtrip[of min_bytes w rest] by blast

theorem C5_varint_varlong_witness:
  "write_varint (- 1) = Inr [240, 255, 255, 255, 255]
   \<and> read_varint ([240, 255, 255, 255, 255] @ [7]) = Inr (- 1, [7])
   \<and> write_varlong (- 1) 3 = Inr [252, 255, 255, 255, 255, 255, 255, 255, 255]
   \<and> read_varlong ([252, 255, 255, 255, 255, 255, 255, 255, 255] @ [7]) 3 = Inr (- 1, [7])"
proof -
  have a: "write_varint (- 1) = Inr [240, 255, 255, 255, 255]" by code_simp
  have b: "write_varlong (- 1) 3 = Inr [252, 255, 255, 255, 255, 255, 255, 255, 255]" by code_simp
  show ?thesis
    using C5_varint_varlong_roundtrip[of "- 1" "[7]" "- 1" 3]
    unfolding a b by simp
qed

text \<open>
  The claim as stated fails for \<open>min_bytes\<close> 1 and 2: the writer emits up to
  \<open>9 - min_bytes\<close> bytes after the first \<open>min_bytes\<close>, the prefix table announces at
  most 6.  For \<open>-1\<close> the writer emits nine bytes; the reader takes seven of them
  (\<open>min_bytes = 1\<close>) or eight (\<open>min_bytes = 2\<close>) and returns a positive number.
\<close>

theorem C5_varlong_small_min_bytes_counterexample:
  "write_varlong (- 1) 1 = Inr [255, 255, 255, 255, 255, 255, 255, 255, 255]
   \<and> read_varlong [255, 255, 255, 255, 255, 255, 255, 255, 255] 1
       = Inr (1125899906842623, [255, 255])
   \<and> write_varlong (- 1) 2 = Inr [254, 255, 255, 255, 255, 255, 255, 255, 255]
   \<and> read_varlong [254, 255, 255, 255, 255, 255, 255, 255, 255] 2
       = Inr (216172782113783807, [255])"
  by code_simp

section \<open>The matcher\<close>

subsection \<open>The optimized weak checksum\<close>

lemma and_ffff_range: "0 \<le> (x::int) AND 0xFFFF \<and> x AND 0xFFFF < 65536"
  by (simp add: and_ffff)

lemma rco_loop1_closed:
  "0 \<le> off \<Longrightarrow> 0 \<le> i \<Longrightarrow> i \<le> n \<Longrightarrow> off + n \<le> len data \<Longrightarrow>
   0 \<le> a1 \<Longrightarrow> a1 < 65536 \<Longrightarrow> 0 \<le> a2 \<Longrightarrow> a2 < 65536 \<Longrightarrow>
   rco_loop1 data off n i (a1, a2) =
     Inr ((a1 + wsum1 (window data (off + i) (n - i))) mod 65536,
          (a2 + (n - i) * a1 + wsum2 (window data (off + i) (n - i))) mod 65536)"
proof (induction "nat (n - i)" arbitrary: i a1 a2)
  case 0
  then have "i = n" by simp
  then show ?case using 0 by (subst rco_loop1.simps) (simp add: window_def)
next
  case (Suc m)
  have lt: "i < n" using Suc.hyps(2) by linarith
  have g: "py_get data (off + i) = Inr (data ! nat (off + i))"
    using Suc.prems lt by (intro py_get_in) auto
  have w: "window data (off + i) (n - i)
           = data ! nat (off + i) # window data (off + i + 1) (n - i - 1)"
    using window_Cons[of "off + i" "n - i" data] Suc.prems lt by simp
  have l: "len (window data (off + i + 1) (n - i - 1)) = n - i - 1"
    using Suc.prems lt by (intro len_window) auto
  have ih: "rco_loop1 data off n (i + 1) (b1 mod 65536, b2 mod 65536) =
     Inr ((b1 mod 65536 + wsum1 (window data (off + (i + 1)) (n - (i + 1)))) mod 65536,
          (b2 mod 65536 + (n - (i + 1)) * (b1 mod 65536)
             + wsum2 (window data (off + (i + 1)) (n - (i + 1)))) mod 65536)" for b1 b2
    using Suc.hyps(2) Suc.prems lt by (intro Suc.hyps(1)) auto
  have step: "rco_loop1 data off n i (a1, a2) =
      rco_loop1 data off n (i + 1)
        ((a1 + uint (data ! nat (off + i))) mod 65536,
         (a2 + (a1 + uint (data ! nat (off + i))) mod 65536) mod 65536)"
    using lt by (subst rco_loop1.simps) (simp add: g CHAR_OFFSET_def and_ffff Let_def)
  have e: "off + (i + 1) = off + i + 1" "n - (i + 1) = n - i - 1" by simp_all
  show ?case
    unfolding step ih w e
    apply (simp add: l)
    apply (simp add: mod_simps)
    apply (simp only: mod_helper)
    apply (simp add: algebra_simps)
    done
qed

lemma rco_loop4_step:
  assumes "0 \<le> off" "0 \<le> i" "i < n - 3" "off + n \<le> len data"
  shows "\<exists>b0 b1 b2 b3.
           rco_loop4 data off n i (a1, a2) =
             rco_loop4 data off n (i + 4)
               ((a1 + b0 + b1 + b2 + b3) mod 65536,
                (a2 + 4 * (a1 + b0) + 3 * b1 + 2 * b2 + b3) mod 65536)
         \<and> rco_loop1 data off n i (a1, a2) =
             rco_loop1 data off n (i + 4)
               ((a1 + b0 + b1 + b2 + b3) mod 65536,
                (a2 + 4 * (a1 + b0) + 3 * b1 + 2 * b2 + b3) mod 65536)"
proof -
  have g0: "py_get data (off + i) = Inr (data ! nat (off + i))"
    using assms by (intro py_get_in) auto
  have g1: "py_get data (off + i + 1) = Inr (data ! nat (off + i + 1))"
    using assms by (intro py_get_in) auto
  have g2: "py_get data (off + i + 2) = Inr (data ! nat (off + i + 2))"
    using assms by (intro py_get_in) auto
  have g3: "py_get data (off + i + 3) = Inr (data ! nat (off + i + 3))"
    using assms by (intro py_get_in) auto
  define b0 where "b0 = uint (data ! nat (off + i))"
  define b1 where "b1 = uint (data ! nat (off + i + 1))"
  define b2 where "b2 = uint (data ! nat (off + i + 2))"
  define b3 where "b3 = uint (data ! nat (off + i + 3))"
  have s4: "rco_loop4 data off n i (a1, a2) =
             rco_loop4 data off n (i + 4)
               ((a1 + b0 + b1 + b2 + b3) mod 65536,
                (a2 + 4 * (a1 + b0) + 3 * b1 + 2 * b2 + b3) mod 65536)"
    using assms(3)
    by (subst rco_loop4.simps)
       (simp add: g0 g1 g2 g3 CHAR_OFFSET_def and_ffff Let_def b0_def b1_def b2_def b3_def)
  have u: "j < n \<Longrightarrow> py_get data (off + j) = Inr d \<Longrightarrow>
        rco_loop1 data off n j (c1, c2) =
        rco_loop1 data off n (j + 1) ((c1 + uint d) mod 65536, (c2 + (c1 + uint d) mod 65536) mod 65536)"
    for j d c1 c2
    by (subst rco_loop1.simps) (simp add: CHAR_OFFSET_def and_ffff Let_def)
  have e: "off + (i + 1) = off + i + 1" "off + (i + 1 + 1) = off + i + 2"
    "off + (i + 1 + 1 + 1) = off + i + 3" "i + 1 + 1 + 1 + 1 = i + 4" by simp_all
  have m1: "((a1 + b0) mod 65536 + b1) mod 65536 = (a1 + b0 + b1) mod 65536"
    by (simp add: mod_simps)
  have m2: "((a1 + b0 + b1) mod 65536 + b2) mod 65536 = (a1 + b0 + b1 + b2) mod 65536"
    by (simp add: mod_simps)
  have m3: "((a1 + b0 + b1 + b2) mod 65536 + b3) mod 65536 = (a1 + b0 + b1 + b2 + b3) mod 65536"
    by (simp add: mod_simps)
  have m4: "((((a2 + (a1 + b0) mod 65536) mod 65536 + (a1 + b0 + b1) mod 65536) mod 65536
              + (a1 + b0 + b1 + b2) mod 65536) mod 65536
              + (a1 + b0 + b1 + b2 + b3) mod 65536) mod 65536
            = (a2 + 4 * (a1 + b0) + 3 * b1 + 2 * b2 + b3) mod 65536"
    by (simp add: mod_simps) (simp add: algebra_simps)
  have s1: "rco_loop1 data off n i (a1, a2) =
             rco_loop1 data off n (i + 4)
               ((a1 + b0 + b1 + b2 + b3) mod 65536,
                (a2 + 4 * (a1 + b0) + 3 * b1 + 2 * b2 + b3) mod 65536)"
    using assms(3)
    apply (subst u[of i, OF _ g0], simp)
    apply (subst u[of "i + 1", unfolded e, OF _ g1], simp)
    apply (subst u[of "i + 1 + 1", unfolded e, OF _ g2], simp)
    apply (subst u[of "i + 1 + 1 + 1", unfolded e, OF _ g3], simp)
    apply (simp only: e m1 m2 m3 m4 b0_def[symmetric] b1_def[symmetric] b2_def[symmetric] b3_def[symmetric])
    done
  show ?thesis using s4 s1 by blast
qed

lemma rco_loop4_then_loop1:
  "0 \<le> off \<Longrightarrow> 0 \<le> i \<Longrightarrow> off + n \<le> len data \<Longrightarrow>
   \<exists>i' c1 c2. rco_loop4 data off n i (a1, a2) = Inr (i', c1, c2)
      \<and> rco_loop1 data off n i' (c1, c2) = rco_loop1 data off n i (a1, a2)"
proof (induction "nat (n - i)" arbitrary: i a1 a2 rule: less_induct)
  case less
  show ?case
  proof (cases "i < n - 3")
    case True
    obtain b0 b1 b2 b3 where
      s4: "rco_loop4 data off n i (a1, a2) =
             rco_loop4 data off n (i + 4)
               ((a1 + b0 + b1 + b2 + b3) mod 65536,
                (a2 + 4 * (a1 + b0) + 3 * b1 + 2 * b2 + b3) mod 65536)"
      and s1: "rco_loop1 data off n i (a1, a2) =
             rco_loop1 data off n (i + 4)
               ((a1 + b0 + b1 + b2 + b3) mod 65536,
                (a2 + 4 * (a1 + b0) + 3 * b1 + 2 * b2 + b3) mod 65536)"
      using rco_loop4_step[OF less.prems(1,2) True less.prems(3)] by blast
    have "nat (n - (i + 4)) < nat (n - i)" using True by simp
    from less.hyps[OF this less.prems(1) _ less.prems(3)] less.prems(2)
    show ?thesis unfolding s4 s1 by simp
  next
    case False
    then show ?thesis by (subst rco_loop4.simps) simp
  qed
qed

lemma rolling_checksum_optimized_window:
  assumes "0 \<le> off" "0 \<le> k" "off + k \<le> len D"
  shows "rolling_checksum_optimized D off (Some k) = Inr (pack_weak (window D off k))"
proof -
  obtain i' c1 c2 where a: "rco_loop4 D off k 0 (0, 0) = Inr (i', c1, c2)"
    and b: "rco_loop1 D off k i' (c1, c2) = rco_loop1 D off k 0 (0, 0)"
    using rco_loop4_then_loop1[of off 0 k D 0 0] assms by auto
  have c: "rco_loop1 D off k 0 (0, 0) =
     Inr ((0 + wsum1 (window D (off + 0) (k - 0))) mod 65536,
          (0 + (k - 0) * 0 + wsum2 (window D (off + 0) (k - 0))) mod 65536)"
    by (rule rco_loop1_closed) (use assms in auto)
  show ?thesis
    by (simp add: rolling_checksum_optimized_def a b c pack_weak_def)
qed
subsection \<open>Chains of instructions\<close>

lemma chain_snoc:
  "chain P a (xs @ [i]) c
     = (chain P a xs (instr_offset i) \<and> P i \<and> 0 < instr_length i
        \<and> c = instr_offset i + instr_length i)"
  by (induction xs arbitrary: a) auto

lemma chain_mono:
  "chain P a xs b \<Longrightarrow> (\<And>i. i \<in> set xs \<Longrightarrow> P i \<Longrightarrow> Q i) \<Longrightarrow> chain Q a xs b"
  by (induction xs arbitrary: a) auto

lemma chain_all: "chain P a xs b \<Longrightarrow> i \<in> set xs \<Longrightarrow> P i"
  by (induction xs arbitrary: a) auto

lemma chain_bounds:
  "chain P a xs b \<Longrightarrow>
     a \<le> b \<and> (\<forall>i \<in> set xs. a \<le> instr_offset i \<and> 0 < instr_length i
                   \<and> instr_offset i + instr_length i \<le> b)"
proof (induction xs arbitrary: a)
  case Nil
  then show ?case by simp
next
  case (Cons i r)
  from Cons.prems have c: "chain P (a + instr_length i) r b" and p: "0 < instr_length i"
    and o: "instr_offset i = a" by simp_all
  from Cons.IH[OF c] p o show ?case by fastforce
qed

lemma chain_sorted: "chain P a xs b \<Longrightarrow> sorted_wrt (<) (map instr_offset xs)"
proof (induction xs arbitrary: a)
  case Nil
  then show ?case by simp
next
  case (Cons i r)
  from Cons.prems have c: "chain P (a + instr_length i) r b" and p: "0 < instr_length i"
    and o: "instr_offset i = a" by simp_all
  from chain_bounds[OF c] p o have "\<forall>j \<in> set r. instr_offset i < instr_offset j" by fastforce
  with Cons.IH[OF c] show ?case by simp
qed

lemma chain_outside:
  "chain P a xs b \<Longrightarrow> p < a \<or> b \<le> p \<Longrightarrow> filter (covers p) xs = []"
  using chain_bounds[of P a xs b] by (fastforce simp: filter_empty_conv covers_def)

lemma chain_once:
  "chain P a xs b \<Longrightarrow> a \<le> p \<Longrightarrow> p < b \<Longrightarrow> length (filter (covers p) xs) = 1"
proof (induction xs arbitrary: a)
  case Nil
  then show ?case by simp
next
  case (Cons i r)
  from Cons.prems have c: "chain P (a + instr_length i) r b" and l: "0 < instr_length i"
    and o: "instr_offset i = a" by simp_all
  show ?case
  proof (cases "p < a + instr_length i")
    case True
    then have "filter (covers p) r = []" using chain_outside[OF c] by simp
    moreover have "covers p i" using True Cons.prems(2) o by (simp add: covers_def)
    ultimately show ?thesis by simp
  next
    case False
    then have "\<not> covers p i" using o by (simp add: covers_def)
    moreover have "length (filter (covers p) r) = 1" using Cons.IH[OF c] False Cons.prems(3) by simp
    ultimately show ?thesis by simp
  qed
qed

subsection \<open>The hash table\<close>

lemma HashTable_build_chain:
  "(case HashTable_build ts bl i tbl h of None \<Rightarrow> [] | Some c \<Rightarrow> c)
     = (case tbl h of None \<Rightarrow> [] | Some c \<Rightarrow> c)
       @ map (\<lambda>n. i + int n)
           (filter (\<lambda>n. HashTable_hash ts (weak_checksum (bl ! n)) = h) [0..<length bl])"
proof (induction bl arbitrary: i tbl)
  case Nil
  then show ?case by simp
next
  case (Cons b r)
  have u: "[0..<length (b # r)] = 0 # map Suc [0..<length r]"
    by (simp add: upt_conv_Cons map_Suc_upt del: upt_Suc)
  show ?case
    unfolding u
    by (simp add: Cons.IH Let_def filter_map o_def)
qed

lemma lookup_indices_set:
  "set (lookup_indices (new_HashTable cfg bl) weak (Some k))
     = {i. 0 \<le> i \<and> i < len bl \<and> weak_checksum (bl ! nat i) = weak \<and> blk_length (bl ! nat i) = k}"
proof -
  define ts where "ts = tablesize (new_HashTable cfg bl)"
  define h where "h = HashTable_hash ts weak"
  have t: "ht_table (new_HashTable cfg bl) = HashTable_build ts bl 0 Map.empty"
    by (simp add: ts_def new_HashTable_def Let_def)
  have b: "ht_blocks (new_HashTable cfg bl) = bl" by (simp add: new_HashTable_def Let_def)
  have ix: "(case ht_table (new_HashTable cfg bl) h of None \<Rightarrow> [] | Some c \<Rightarrow> c)
        = map int (filter (\<lambda>n. HashTable_hash ts (weak_checksum (bl ! n)) = h) [0..<length bl])"
    unfolding t HashTable_build_chain by simp
  have f: "(if xs = [] then [] else filter Q xs) = filter Q xs" for Q and xs :: "int list"
    by simp
  have "set (lookup_indices (new_HashTable cfg bl) weak (Some k))
        = {i \<in> set (map int (filter (\<lambda>n. HashTable_hash ts (weak_checksum (bl ! n)) = h) [0..<length bl])).
             weak_checksum (bl ! nat i) = weak \<and> blk_length (bl ! nat i) = k}"
    unfolding lookup_indices_def Let_def ts_def[symmetric] h_def[symmetric] ix b option.case f
    by auto
  also have "\<dots> = {i. 0 \<le> i \<and> i < len bl \<and> weak_checksum (bl ! nat i) = weak \<and> blk_length (bl ! nat i) = k}"
  proof (intro set_eqI iffI; clarsimp simp: len_def h_def)
    fix i assume a: "0 \<le> i" "i < int (length bl)" "k = blk_length (bl ! nat i)" "weak = weak_checksum (bl ! nat i)"
    then have "i = int (nat i)" "nat i < length bl" by auto
    then show "i \<in> int ` {x. x < length bl \<and> HashTable_hash ts (weak_checksum (bl ! x)) = HashTable_hash ts (weak_checksum (bl ! nat i))}"
      by blast
  qed
  finally show ?thesis .
qed
subsection \<open>The search for a match\<close>

lemma advance_aligned_some:
  "0 < bl \<Longrightarrow>
   \<exists>ao' ai'. advance_aligned bl off (ao, ai) = Some (ao', ai')
      \<and> off \<le> ao' \<and> ai \<le> ai' \<and> ao' - ao = (ai' - ai) * bl
      \<and> (ao' < off + bl \<or> ao' = ao)"
proof (induction bl off "(ao, ai)" arbitrary: ao ai rule: advance_aligned.induct)
  case (1 blength offset aligned_offset aligned_i)
  show ?case
  proof (cases "aligned_offset < offset")
    case True
    from 1(1)[OF True 1(2) 1(2)] obtain ao' ai' where
      r: "advance_aligned blength offset (aligned_offset + blength, aligned_i + 1) = Some (ao', ai')"
      and p: "offset \<le> ao'" "aligned_i + 1 \<le> ai'"
        "ao' - (aligned_offset + blength) = (ai' - (aligned_i + 1)) * blength"
        "ao' < offset + blength \<or> ao' = aligned_offset + blength"
      by blast
    have "advance_aligned blength offset (aligned_offset, aligned_i) = Some (ao', ai')"
      using True 1(2) r by (subst advance_aligned.simps) simp
    moreover have "ao' - aligned_offset = (ai' - aligned_i) * blength"
      using p(3) by (simp add: algebra_simps)
    moreover have "ao' < offset + blength" using p(4) True by auto
    ultimately show ?thesis using p(1,2) by auto
  next
    case False
    then show ?thesis by (subst advance_aligned.simps) simp
  qed
qed

lemma aligned_match_props:
  assumes k: "0 < st_k s" "st_k s \<le> cx_blength C"
    and mi: "0 \<le> mi" "mi < len (blocks (cx_signature C))"
    and ai: "0 \<le> st_aligned_i s"
    and se: "strong_eq C strong (block_at C mi)"
  shows "\<exists>mi' strong' s1. aligned_match C w strong mi s = Inr (mi', strong', s1)
     \<and> same_progress s s1 \<and> 0 \<le> mi' \<and> mi' < len (blocks (cx_signature C))
     \<and> 0 \<le> st_aligned_i s1
     \<and> (st_want_i s1 = st_want_i s \<or> st_want_i s1 = mi')
     \<and> strong_eq C strong' (block_at C mi')
     \<and> ((st_offset s1 = st_offset s \<and> strong' = strong)
        \<or> (st_offset s < st_offset s1 \<and> st_offset s1 + st_k s \<le> cx_file_len C
            \<and> strong' = strong_checksum_func (cx_engine C)
                          (py_slice (cx_mv C) (st_offset s1) (st_offset s1 + st_k s))))"
proof -
  have bl: "0 < cx_blength C" using k by simp
  obtain ao ai' where
    r: "advance_aligned (cx_blength C) (st_offset s) (st_aligned_offset s, st_aligned_i s)
          = Some (ao, ai')"
    and p: "st_offset s \<le> ao" "st_aligned_i s \<le> ai'"
    using advance_aligned_some[OF bl, of "st_offset s" "st_aligned_offset s" "st_aligned_i s"]
    by blast
  have a: "0 \<le> ai'" using p ai by simp
  show ?thesis
    unfolding aligned_match_def r option.case prod.case
    using p(1) a mi se
    by (auto simp: Let_def same_progress_def split: if_splits)
qed

lemma want_match_props:
  assumes "0 \<le> mi" "mi < len (blocks (cx_signature C))" "0 \<le> st_want_i s"
    and "strong_eq C strong (block_at C mi)"
  shows "0 \<le> want_match C w strong mi s
     \<and> want_match C w strong mi s < len (blocks (cx_signature C))
     \<and> strong_eq C strong (block_at C (want_match C w strong mi s))"
  using assms by (auto simp: want_match_def Let_def)

lemma find_match_props:
  assumes inv: "match_inv C s" and ok: "ctx_ok cfg C" and k: "0 < st_k s"
  shows "\<exists>r s1. find_match C s = Inr (r, s1) \<and> same_progress s s1
     \<and> 0 \<le> st_want_i s1 \<and> 0 \<le> st_aligned_i s1
     \<and> (case r of
           None \<Rightarrow> s1 = s
         | Some mi \<Rightarrow>
             st_offset s \<le> st_offset s1 \<and> st_offset s1 + st_k s \<le> cx_file_len C
             \<and> 0 \<le> mi \<and> mi < len (blocks (cx_signature C))
             \<and> strong_eq C (strong_checksum_func (cx_engine C)
                   (py_slice (cx_mv C) (st_offset s1) (st_offset s1 + st_k s)))
                 (block_at C mi))"
proof -
  define weak where "weak = combine_checksum (st_s1 s) (st_s2 s)"
  define cands where "cands = lookup_indices (cx_hash_table C) weak (Some (st_k s))"
  define strong where "strong = strong_checksum_func (cx_engine C)
     (py_slice (cx_mv C) (st_offset s) (st_offset s + st_k s))"
  define cands1 where "cands1 = (if cx_updating C
       then filter (\<lambda>i. blk_offset (block_at C i) \<ge> st_offset s \<or> i \<in> st_same_offset s) cands
       else cands)"
  have kb: "st_k s \<le> cx_blength C" and fit: "st_offset s + st_k s \<le> cx_file_len C"
    and w0: "0 \<le> st_want_i s" and a0: "0 \<le> st_aligned_i s"
    using inv k by (auto simp: match_inv_def)
  have sp: "same_progress s s" by (simp add: same_progress_def)
  have fm: "find_match C s =
     (if cands = [] then Inr (None, s)
      else case List.find (\<lambda>idx. strong_eq C strong (block_at C idx)) cands1 of
             None \<Rightarrow> Inr (None, s)
           | Some matched_index \<Rightarrow>
               (case (if cx_updating C then aligned_match C weak strong matched_index s
                      else Inr (matched_index, strong, s)) of
                  Inl e \<Rightarrow> Inl e
                | Inr (matched_index1, strong1, s1) \<Rightarrow>
                    Inr (Some (want_match C weak strong1 matched_index1 s1), s1)))"
    unfolding find_match_def Let_def weak_def cands_def strong_def cands1_def by (rule refl)
  show ?thesis
  proof (cases "cands = [] \<or> List.find (\<lambda>idx. strong_eq C strong (block_at C idx)) cands1 = None")
    case True
    then have "find_match C s = Inr (None, s)" unfolding fm by auto
    then show ?thesis using sp w0 a0 by simp
  next
    case False
    then obtain mi where f: "List.find (\<lambda>idx. strong_eq C strong (block_at C idx)) cands1 = Some mi"
      and ne: "cands \<noteq> []" by auto
    from f have se: "strong_eq C strong (block_at C mi)" and "mi \<in> set cands1"
      by (auto simp: find_Some_iff)
    then have "mi \<in> set cands" by (auto simp: cands1_def split: if_splits)
    then have mi: "0 \<le> mi" "mi < len (blocks (cx_signature C))"
      using ok by (auto simp: cands_def ctx_ok_def lookup_indices_set)
    show ?thesis
    proof (cases "cx_updating C")
      case True
      from aligned_match_props[OF k kb mi a0 se, of weak] obtain mi' strong' s1 where
        am: "aligned_match C weak strong mi s = Inr (mi', strong', s1)"
        and pr: "same_progress s s1" "0 \<le> mi'" "mi' < len (blocks (cx_signature C))"
          "0 \<le> st_aligned_i s1" "st_want_i s1 = st_want_i s \<or> st_want_i s1 = mi'"
          "strong_eq C strong' (block_at C mi')"
          "(st_offset s1 = st_offset s \<and> strong' = strong)
           \<or> (st_offset s < st_offset s1 \<and> st_offset s1 + st_k s \<le> cx_file_len C
               \<and> strong' = strong_checksum_func (cx_engine C)
                          (py_slice (cx_mv C) (st_offset s1) (st_offset s1 + st_k s)))"
        by blast
      have w1: "0 \<le> st_want_i s1" using pr(5,2) w0 by auto
      have st: "strong' = strong_checksum_func (cx_engine C)
                          (py_slice (cx_mv C) (st_offset s1) (st_offset s1 + st_k s))"
        using pr(7) by (auto simp: strong_def)
      have off: "st_offset s \<le> st_offset s1" "st_offset s1 + st_k s \<le> cx_file_len C"
        using pr(7) fit by auto
      have fm': "find_match C s = Inr (Some (want_match C weak strong' mi' s1), s1)"
        unfolding fm using ne f True am by simp
      show ?thesis
        unfolding fm'
        using want_match_props[OF pr(2,3) w1 pr(6), of weak] pr(1,4) w1 off st
        by simp
    next
      case False
      have fm': "find_match C s = Inr (Some (want_match C weak strong mi s), s)"
        unfolding fm using ne f False by simp
      show ?thesis
        unfolding fm'
        using want_match_props[OF mi w0 se, of weak] sp w0 a0 fit
        by (simp add: strong_def)
    qed
  qed
qed
subsection \<open>One iteration of the loop\<close>

lemma py_slice_window:
  "0 \<le> a \<Longrightarrow> a \<le> b \<Longrightarrow> py_slice xs a b = window xs a (b - a)"
  by (simp add: py_slice_nonneg window_def)

lemma window_slide_sums:
  assumes "0 \<le> off" "1 \<le> k" "off + k < len D"
  shows "wsum1 (window D (off + 1) k)
           = wsum1 (window D off k) - uint (D ! nat off) + uint (D ! nat (off + k))"
    and "wsum2 (window D (off + 1) k)
           = wsum2 (window D off k) - k * uint (D ! nat off)
             + (wsum1 (window D off k) - uint (D ! nat off) + uint (D ! nat (off + k)))"
proof -
  have l: "len (window D (off + 1) (k - 1)) = k - 1"
    using assms by (intro len_window) auto
  have w1: "window D off k = D ! nat off # window D (off + 1) (k - 1)"
    using window_Cons[of off k D] assms by simp
  have w2: "window D (off + 1) k = window D (off + 1) (k - 1) @ [D ! nat (off + k)]"
    using window_snoc[of "off + 1" k D] assms by simp
  show "wsum1 (window D (off + 1) k)
           = wsum1 (window D off k) - uint (D ! nat off) + uint (D ! nat (off + k))"
    unfolding w1 w2 by (simp add: wsum1_snoc)
  show "wsum2 (window D (off + 1) k)
           = wsum2 (window D off k) - k * uint (D ! nat off)
             + (wsum1 (window D off k) - uint (D ! nat off) + uint (D ! nat (off + k)))"
    unfolding w1 w2 by (simp add: wsum1_snoc wsum2_snoc l; simp add: algebra_simps)
qed

lemma window_shrink_sums:
  assumes "0 \<le> off" "1 \<le> k" "off + k \<le> len D"
  shows "wsum1 (window D (off + 1) (k - 1)) = wsum1 (window D off k) - uint (D ! nat off)"
    and "wsum2 (window D (off + 1) (k - 1)) = wsum2 (window D off k) - k * uint (D ! nat off)"
proof -
  have l: "len (window D (off + 1) (k - 1)) = k - 1"
    using assms by (intro len_window) auto
  have w1: "window D off k = D ! nat off # window D (off + 1) (k - 1)"
    using window_Cons[of off k D] assms by simp
  show "wsum1 (window D (off + 1) (k - 1)) = wsum1 (window D off k) - uint (D ! nat off)"
    unfolding w1 by simp
  show "wsum2 (window D (off + 1) (k - 1)) = wsum2 (window D off k) - k * uint (D ! nat off)"
    unfolding w1 by (simp add: l; simp add: algebra_simps)
qed

lemma emit_match_props:
  assumes inv: "match_inv C s" and ok: "ctx_ok cfg C" and k: "0 < st_k s"
    and sp: "same_progress s s1"
    and off: "st_offset s \<le> st_offset s1" "st_offset s1 + st_k s \<le> cx_file_len C"
    and ix: "0 \<le> st_want_i s1" "0 \<le> st_aligned_i s1"
    and mi: "0 \<le> mi" "mi < len (blocks (cx_signature C))"
    and se: "strong_eq C (strong_checksum_func (cx_engine C)
                   (py_slice (cx_mv C) (st_offset s1) (st_offset s1 + st_k s)))
                 (block_at C mi)"
  shows "\<exists>r. emit_match C mi s1 = Inr r
           \<and> (case r of Continue s' \<Rightarrow> match_inv C s' | Break s' \<Rightarrow> match_post C s')"
proof -
  define o1 where "o1 = st_offset s1"
  define kk where "kk = st_k s1"
  define ls where "ls = st_lit_start s1"
  define ins0 where "ins0 = st_instructions s1"
  have fl: "cx_file_len C = len (cx_mv C)" using ok by (simp add: ctx_ok_def)
  have f: "kk = st_k s" "ls = st_lit_start s" "ins0 = st_instructions s"
    using sp by (auto simp: same_progress_def kk_def ls_def ins0_def)
  have kp: "0 < kk" using k f by simp
  have i: "0 \<le> ls" "ls \<le> st_offset s" "kk = min (cx_blength C) (cx_file_len C - st_offset s)"
    "chain (emitted C) 0 ins0 ls"
    using inv by (auto simp: match_inv_def f)
  have kfit: "o1 + kk \<le> cx_file_len C" using off(2) by (simp add: o1_def f)
  have k1: "kk = min (cx_blength C) (cx_file_len C - o1)"
    using i(3) off(1) kfit kp by (auto simp: o1_def)
  have lo: "ls \<le> o1" using i(2) off by (simp add: o1_def)
  have o0: "0 \<le> o1" using i(1) lo by simp
  have win: "py_slice (cx_mv C) o1 (o1 + kk) = window (cx_mv C) o1 kk"
    using o0 kp by (simp add: py_slice_window)
  have se': "strong_eq C (strong_checksum_func (cx_engine C) (window (cx_mv C) o1 kk))
               (block_at C mi)"
    using se unfolding o1_def[symmetric] f(1)[symmetric] win .
  have m: "emitted C (''match'', DeltaMatch mi o1 kk)"
    using o0 kfit k1 mi se' by simp
  define ins1 where "ins1 = (if o1 > ls
        then ins0 @ [(''literal'', DeltaLiteral ls (py_slice (cx_mv C) ls o1))]
        else ins0)"
  have c1: "chain (emitted C) 0 ins1 o1"
  proof (cases "o1 > ls")
    case True
    have w: "py_slice (cx_mv C) ls o1 = window (cx_mv C) ls (o1 - ls)"
      using i(1) lo by (simp add: py_slice_window)
    have l: "len (window (cx_mv C) ls (o1 - ls)) = o1 - ls"
      using i(1) True kfit kp fl by (intro len_window) auto
    show ?thesis
      using True i(1,4) kfit kp
      by (simp add: ins1_def chain_snoc w l)
  next
    case False
    then show ?thesis using i(4) lo by (simp add: ins1_def)
  qed
  have c2: "chain (emitted C) 0 (ins1 @ [(''match'', DeltaMatch mi o1 kk)]) (o1 + kk)"
    using c1 m kp by (simp add: chain_snoc del: emitted.simps)
  define sa where "sa = s1\<lparr>st_instructions := ins1 @ [(''match'', DeltaMatch mi o1 kk)],
       st_want_i := mi + 1, st_last_match := o1 + kk, st_offset := o1 + kk,
       st_lit_start := o1 + kk\<rparr>"
  have em: "emit_match C mi s1 =
     (if st_offset sa \<ge> cx_file_len C then Inr (Break sa)
      else
        (let k1 = min (cx_blength C) (cx_file_len C - st_offset sa); s2 = sa\<lparr>st_k := k1\<rparr>
         in if k1 \<le> 0 then Inr (Break s2)
            else (case rolling_checksum_optimized (cx_mv C) (st_offset s2) (Some k1) of
                    Inl e \<Rightarrow> Inl e
                  | Inr weak0 \<Rightarrow>
                      (case checksum_components weak0 of
                         (s1', s2') \<Rightarrow> Inr (Continue (s2\<lparr>st_s1 := s1', st_s2 := s2'\<rparr>))))))"
    unfolding emit_match_def Let_def sa_def ins1_def o1_def kk_def ls_def ins0_def
    by (rule refl)
  have so: "st_offset sa = o1 + kk" "st_offset (sa\<lparr>st_k := x\<rparr>) = o1 + kk" for x
    by (simp_all add: sa_def)
  have post: "match_post C sa" "match_post C (sa\<lparr>st_k := x\<rparr>)" for x
    using c2 o0 kp kfit
    by (simp_all add: match_post_def sa_def)
  show ?thesis
  proof (cases "o1 + kk \<ge> cx_file_len C")
    case True
    then show ?thesis using post(1) by (simp add: em so)
  next
    case False
    define k1 where "k1 = min (cx_blength C) (cx_file_len C - (o1 + kk))"
    show ?thesis
    proof (cases "k1 \<le> 0")
      case True
      then show ?thesis using \<open>\<not> o1 + kk \<ge> cx_file_len C\<close> post(2)
        by (simp add: em so Let_def k1_def[symmetric])
    next
      case k1pos: False
      have r: "rolling_checksum_optimized (cx_mv C) (o1 + kk) (Some k1)
               = Inr (pack_weak (window (cx_mv C) (o1 + kk) k1))"
        using o0 kp k1pos fl by (intro rolling_checksum_optimized_window) (auto simp: k1_def)
      obtain a b where ab: "checksum_components (pack_weak (window (cx_mv C) (o1 + kk) k1)) = (a, b)"
        by (cases "checksum_components (pack_weak (window (cx_mv C) (o1 + kk) k1))")
      have e: "emit_match C mi s1 = Inr (Continue (sa\<lparr>st_k := k1, st_s1 := a, st_s2 := b\<rparr>))"
        using False k1pos by (simp add: em so Let_def k1_def[symmetric] r ab)
      have "match_inv C (sa\<lparr>st_k := k1, st_s1 := a, st_s2 := b\<rparr>)"
        using c2 o0 kp False mi ix ab
        by (simp add: match_inv_def sa_def k1_def)
      then show ?thesis by (simp add: e)
    qed
  qed
qed
lemma no_match_props:
  assumes inv: "match_inv C s" and ok: "ctx_ok cfg C" and k: "0 < st_k s"
  shows "\<exists>s'. no_match C s = Inr s' \<and> match_inv C s'"
proof -
  define off where "off = st_offset s"
  define kk where "kk = st_k s"
  define ls where "ls = st_lit_start s"
  define D where "D = cx_mv C"
  have fl: "cx_file_len C = len D" using ok by (simp add: ctx_ok_def D_def)
  have i: "0 \<le> ls" "ls \<le> off" "kk = min (cx_blength C) (len D - off)"
    "chain (emitted C) 0 (st_instructions s) ls" "0 \<le> st_want_i s" "0 \<le> st_aligned_i s"
    and sums: "(st_s1 s, st_s2 s) = checksum_components (pack_weak (window D off kk))"
    using inv by (auto simp: match_inv_def ls_def kk_def off_def fl D_def)
  have kp: "0 < kk" using k by (simp add: kk_def)
  have o0: "0 \<le> off" using i by simp
  have fit: "off + kk \<le> len D" using i(3) kp by auto
  have bl: "0 < cx_blength C" "kk \<le> cx_blength C" using i(3) kp by auto
  have s12: "st_s1 s = wsum1 (window D off kk) mod 65536"
    "st_s2 s = wsum2 (window D off kk) mod 65536"
    using sums by (simp_all add: components_pack_weak)
  have g0: "py_get D off = Inr (D ! nat off)"
    using o0 fit kp by (intro py_get_in) auto
  define sb where "sb = (if off + kk < len D
       then (case rolling_update (uint (D ! nat off)) (uint (D ! nat (off + kk)))
                   (st_s1 s) (st_s2 s) kk of
               (s1', s2') \<Rightarrow> s\<lparr>st_s1 := s1', st_s2 := s2'\<rparr>)
       else s\<lparr>st_s1 := (st_s1 s - (uint (D ! nat off) + CHAR_OFFSET)) AND 0xFFFF,
              st_s2 := (st_s2 s - kk * (uint (D ! nat off) + CHAR_OFFSET)) AND 0xFFFF,
              st_k := kk - 1\<rparr>)"
  define sc where "sc = (if off - st_last_match sb \<ge> cx_blength C + CHUNK_SIZE
                            \<and> cx_end C - off > CHUNK_SIZE
       then (if off - cx_blength C > st_lit_start sb
             then sb\<lparr>st_instructions := st_instructions sb
                        @ [(''literal'', DeltaLiteral (st_lit_start sb)
                              (py_slice D (st_lit_start sb) (off - cx_blength C)))],
                     st_lit_start := off - cx_blength C,
                     st_last_match := off - cx_blength C\<rparr>
             else sb)
       else sb)"
  have g1: "off + kk < len D \<Longrightarrow> py_get D (off + kk) = Inr (D ! nat (off + kk))"
    using o0 kp by (intro py_get_in) auto
  have nm: "no_match C s = Inr (sc\<lparr>st_offset := off + 1\<rparr>)"
  proof (cases "off + kk < len D")
    case True
    then show ?thesis
      unfolding no_match_def Let_def off_def[symmetric] kk_def[symmetric] D_def[symmetric] fl
      by (simp add: g0 g1 sc_def sb_def Let_def split: prod.splits)
  next
    case False
    then show ?thesis
      unfolding no_match_def Let_def off_def[symmetric] kk_def[symmetric] D_def[symmetric] fl
      by (simp add: g0 sc_def sb_def Let_def)
  qed
  \<comment> \<open>the state after the checksum update\<close>
  have b_frame: "st_lit_start sb = ls" "st_instructions sb = st_instructions s"
    "st_want_i sb = st_want_i s" "st_aligned_i sb = st_aligned_i s" "st_offset sb = off"
    by (auto simp: sb_def ls_def off_def split: prod.splits)
  have b_k: "st_k sb = min (cx_blength C) (len D - (off + 1))"
    using i(3) kp by (auto simp: sb_def kk_def split: prod.splits)
  have b_sums: "(st_s1 sb, st_s2 sb)
        = checksum_components (pack_weak (window D (off + 1) (st_k sb)))"
  proof (cases "off + kk < len D")
    case True
    have ru: "rolling_update (uint (D ! nat off)) (uint (D ! nat (off + kk))) (st_s1 s) (st_s2 s) kk
          = (wsum1 (window D (off + 1) kk) mod 65536, wsum2 (window D (off + 1) kk) mod 65536)"
      unfolding s12 rolling_update_mod
      using window_slide_sums[of off kk D] o0 kp True by simp
    have "st_k sb = kk" using True by (simp add: sb_def kk_def split: prod.splits)
    then show ?thesis using True by (simp add: sb_def ru components_pack_weak)
  next
    case False
    have a: "(wsum1 (window D off kk) mod 65536 - uint (D ! nat off)) mod 65536
             = wsum1 (window D (off + 1) (kk - 1)) mod 65536"
      using window_shrink_sums(1)[of off kk D] o0 kp fit by (simp add: mod_simps)
    have b: "(wsum2 (window D off kk) mod 65536 - kk * uint (D ! nat off)) mod 65536
             = wsum2 (window D (off + 1) (kk - 1)) mod 65536"
      using window_shrink_sums(2)[of off kk D] o0 kp fit by (simp add: mod_simps)
    show ?thesis
      using False by (simp add: sb_def s12 CHAR_OFFSET_def and_ffff a b components_pack_weak)
  qed
  \<comment> \<open>the state after the early flush\<close>
  have c_frame: "st_k sc = st_k sb" "st_s1 sc = st_s1 sb" "st_s2 sc = st_s2 sb"
    "st_want_i sc = st_want_i sb" "st_aligned_i sc = st_aligned_i sb"
    by (auto simp: sc_def)
  have c_lit: "0 \<le> st_lit_start sc \<and> st_lit_start sc \<le> off
        \<and> chain (emitted C) 0 (st_instructions sc) (st_lit_start sc)"
  proof (cases "off - st_last_match sb \<ge> cx_blength C + CHUNK_SIZE
                  \<and> cx_end C - off > CHUNK_SIZE \<and> off - cx_blength C > ls")
    case True
    define fe where "fe = off - cx_blength C"
    have fe: "ls < fe" "fe \<le> off" using True bl by (auto simp: fe_def)
    have w: "py_slice D ls fe = window D ls (fe - ls)"
      using i(1) fe by (simp add: py_slice_window)
    have l: "len (window D ls (fe - ls)) = fe - ls"
      using i(1) fe fit kp by (intro len_window) auto
    have sc': "sc = sb\<lparr>st_instructions := st_instructions s
                        @ [(''literal'', DeltaLiteral ls (py_slice D ls fe))],
                     st_lit_start := fe, st_last_match := fe\<rparr>"
      using True by (simp add: sc_def b_frame fe_def)
    show ?thesis
      using i(1,4) fe fit kp
      by (simp add: sc' chain_snoc w l fl D_def[symmetric])
  next
    case False
    then have "sc = sb" by (auto simp: sc_def b_frame)
    then show ?thesis using i by (simp add: b_frame)
  qed
  have "match_inv C (sc\<lparr>st_offset := off + 1\<rparr>)"
    using c_lit b_k b_sums i(5,6) fit kp
    by (simp add: match_inv_def c_frame b_frame fl D_def[symmetric])
  then show ?thesis using nm by simp
qed

lemma loop_body_props:
  assumes inv: "match_inv C s" and ok: "ctx_ok cfg C" and k: "0 < st_k s"
  shows "\<exists>r. loop_body C s = Inr r
           \<and> (case r of Continue s' \<Rightarrow> match_inv C s' | Break s' \<Rightarrow> match_post C s')"
proof -
  obtain r s1 where fm: "find_match C s = Inr (r, s1)" and sp: "same_progress s s1"
    and ix: "0 \<le> st_want_i s1" "0 \<le> st_aligned_i s1"
    and c: "(case r of
           None \<Rightarrow> s1 = s
         | Some mi \<Rightarrow>
             st_offset s \<le> st_offset s1 \<and> st_offset s1 + st_k s \<le> cx_file_len C
             \<and> 0 \<le> mi \<and> mi < len (blocks (cx_signature C))
             \<and> strong_eq C (strong_checksum_func (cx_engine C)
                   (py_slice (cx_mv C) (st_offset s1) (st_offset s1 + st_k s)))
                 (block_at C mi))"
    using find_match_props[OF inv ok k] by blast
  show ?thesis
  proof (cases r)
    case None
    then have "s1 = s" using c by simp
    then show ?thesis
      using no_match_props[OF inv ok k] fm None by (auto simp: loop_body_def)
  next
    case (Some mi)
    then have p: "st_offset s \<le> st_offset s1" "st_offset s1 + st_k s \<le> cx_file_len C"
      "0 \<le> mi" "mi < len (blocks (cx_signature C))"
      "strong_eq C (strong_checksum_func (cx_engine C)
                   (py_slice (cx_mv C) (st_offset s1) (st_offset s1 + st_k s)))
                 (block_at C mi)"
      using c by simp_all
    show ?thesis
      using emit_match_props[OF inv ok k sp p(1,2) ix p(3,4,5)] fm Some
      by (simp add: loop_body_def)
  qed
qed

subsection \<open>The loop\<close>

lemma hash_search_rule:
  assumes "I s"
    and "\<And>s. I s \<Longrightarrow> st_offset s < cx_end C \<Longrightarrow> 0 < st_k s \<Longrightarrow>
           \<exists>r. loop_body C s = Inr r \<and> (case r of Continue s' \<Rightarrow> I s' | Break s' \<Rightarrow> Q s')"
    and "\<And>s. I s \<Longrightarrow> \<not> (st_offset s < cx_end C \<and> 0 < st_k s) \<Longrightarrow> Q s"
  shows "\<exists>s'. hash_search C s = Inr s' \<and> Q s'"
  using assms
proof (induction C s rule: hash_search.induct)
  case (1 C s)
  show ?case
  proof (cases "st_offset s < cx_end C \<and> 0 < st_k s")
    case True
    then obtain r where r: "loop_body C s = Inr r"
      and c: "(case r of Continue s' \<Rightarrow> I s' | Break s' \<Rightarrow> Q s')"
      using 1(3)[OF 1(2)] by blast
    show ?thesis
    proof (cases r)
      case (Continue s')
      then have "I s'" using c by simp
      from 1(1)[OF True r Continue this 1(3) 1(4)]
      show ?thesis using True r Continue by (subst hash_search.simps) simp
    next
      case (Break s')
      then show ?thesis using True r c by (subst hash_search.simps) simp
    qed
  next
    case False
    then show ?thesis using 1(4)[OF 1(2)] by (subst hash_search.simps) auto
  qed
qed

lemma hash_search_props:
  assumes inv: "match_inv C s" and ok: "ctx_ok cfg C"
  shows "\<exists>s'. hash_search C s = Inr s' \<and> match_post C s'"
proof (rule hash_search_rule[where I = "match_inv C"])
  show "match_inv C s" by (rule inv)
next
  fix s assume "match_inv C s" "0 < st_k s"
  then show "\<exists>r. loop_body C s = Inr r
           \<and> (case r of Continue s' \<Rightarrow> match_inv C s' | Break s' \<Rightarrow> match_post C s')"
    using loop_body_props[OF _ ok] by blast
next
  fix s assume "match_inv C s"
  then show "match_post C s" by (simp add: match_inv_def match_post_def)
qed
subsection \<open>generate\_delta\<close>

lemma generate_delta_eq:
  assumes "len X \<le> MAX_FILE_SIZE_IN_MEMORY"
  shows "generate_delta E cfg fs S X =
     (case hash_search (delta_ctx E cfg S X) (delta_init S X) of
        Inl e \<Rightarrow> Inl e
      | Inr s \<Rightarrow>
          Inr \<lparr>original_file_size = file_size S, new_file_size = len X,
               delta_block_size = block_size S, instructions = final_flush X s,
               compression_ratio = ratio_of (final_flush X s),
               sender_file_sum = (if COMPUTE_SENDER_FILE_SUM cfg then Some (fs X) else None)\<rparr>)"
proof -
  define k where "k = min (block_size S) (len X)"
  have v: "validate_data X (Some MAX_FILE_SIZE_IN_MEMORY) 0 = Inr ()"
    using assms by (simp add: validate_data_def len_def)
  obtain a b where ab: "checksum_components (pack_weak (window X 0 k)) = (a, b)"
    by (cases "checksum_components (pack_weak (window X 0 k))")
  have w: "(if k > 0 then
              (case rolling_checksum_optimized X 0 (Some k) of
                 Inl e \<Rightarrow> Inl e
               | Inr weak0 \<Rightarrow> Inr (checksum_components weak0))
            else Inr (0, 0)) = Inr (a, b)"
  proof (cases "k > 0")
    case True
    have "rolling_checksum_optimized X 0 (Some k) = Inr (pack_weak (window X 0 k))"
      using True by (intro rolling_checksum_optimized_window) (auto simp: k_def)
    then show ?thesis using True ab by simp
  next
    case False
    then have "window X 0 k = []" by (simp add: window_def)
    then show ?thesis using False ab by (simp add: pack_weak_def checksum_components_def)
  qed
  have i: "delta_init S X =
             \<lparr>st_offset = 0, st_k = k, st_s1 = a, st_s2 = b,
              st_lit_start = 0, st_want_i = 0, st_last_match = 0,
              st_aligned_offset = 0, st_aligned_i = 0, st_same_offset = {},
              st_instructions = []\<rparr>"
    by (simp add: delta_init_def Let_def k_def[symmetric] ab)
  show ?thesis
    unfolding generate_delta_def v Let_def k_def[symmetric] w i
    by (simp add: delta_ctx_def Let_def final_flush_def ratio_of_def cong: sum.case_cong)
qed

lemma delta_init_inv: "match_inv (delta_ctx E cfg S X) (delta_init S X)"
  by (simp add: match_inv_def delta_ctx_def delta_init_def Let_def len_def split: prod.splits)

lemma delta_ctx_ok: "ctx_ok cfg (delta_ctx E cfg S X)"
  by (simp add: ctx_ok_def delta_ctx_def)

lemma final_flush_chain:
  assumes "match_post (delta_ctx E cfg S X) s"
  shows "chain (emitted (delta_ctx E cfg S X)) 0 (final_flush X s) (len X)"
proof -
  define ls where "ls = st_lit_start s"
  have p: "0 \<le> ls" "ls \<le> len X" "chain (emitted (delta_ctx E cfg S X)) 0 (st_instructions s) ls"
    using assms by (auto simp: match_post_def ls_def delta_ctx_def)
  show ?thesis
  proof (cases "ls < len X")
    case True
    have w: "py_slice X ls (len X) = window X ls (len X - ls)"
      using p by (simp add: py_slice_window)
    have l: "len (window X ls (len X - ls)) = len X - ls"
      using p by (intro len_window) auto
    show ?thesis
      using True p
      by (simp add: final_flush_def ls_def[symmetric] chain_snoc w l delta_ctx_def)
  next
    case False
    then have "ls = len X" using p by simp
    then show ?thesis using p by (simp add: final_flush_def ls_def[symmetric])
  qed
qed

lemma generate_delta_chain:
  assumes "len X \<le> MAX_FILE_SIZE_IN_MEMORY"
  shows "\<exists>d. generate_delta E cfg fs S X = Inr d
           \<and> chain (emitted (delta_ctx E cfg S X)) 0 (instructions d) (len X)
           \<and> delta_block_size d = block_size S"
proof -
  obtain s where h: "hash_search (delta_ctx E cfg S X) (delta_init S X) = Inr s"
    and p: "match_post (delta_ctx E cfg S X) s"
    using hash_search_props[OF delta_init_inv delta_ctx_ok] by blast
  show ?thesis
    unfolding generate_delta_eq[OF assms] h
    using final_flush_chain[OF p] by simp
qed

text \<open>
  Claim C2.  For every engine, configuration (with or without
  \<open>UPDATING_BASIS_FILE\<close>), signature and new data \<open>X\<close> within the in-memory limit,
  \<open>generate_delta\<close> returns; the offsets of the instructions it returns are strictly
  ascending, every instruction is a \<open>'match'\<close>-tagged match or a \<open>'literal'\<close>-tagged
  literal with a range that is not empty and lies inside \<open>[0, len X)\<close>, every position
  of \<open>[0, len X)\<close> is covered by exactly one instruction and no position outside by any.
\<close>

theorem C2_instructions_partition:
  assumes "len X \<le> MAX_FILE_SIZE_IN_MEMORY"
  shows "\<exists>d. generate_delta E cfg fs S X = Inr d
           \<and> sorted_wrt (<) (map instr_offset (instructions d))
           \<and> (\<forall>i \<in> set (instructions d).
                 well_tagged i \<and> 0 \<le> instr_offset i \<and> 0 < instr_length i
                 \<and> instr_offset i + instr_length i \<le> len X)
           \<and> (\<forall>p. 0 \<le> p \<and> p < len X \<longrightarrow> length (filter (covers p) (instructions d)) = 1)
           \<and> (\<forall>p. p < 0 \<or> len X \<le> p \<longrightarrow> filter (covers p) (instructions d) = [])"
proof -
  obtain d where g: "generate_delta E cfg fs S X = Inr d"
    and c: "chain (emitted (delta_ctx E cfg S X)) 0 (instructions d) (len X)"
    using generate_delta_chain[OF assms] by blast
  have t: "well_tagged i" if "i \<in> set (instructions d)" for i
    using chain_all[OF c that] by (cases i rule: well_tagged.cases) simp_all
  show ?thesis
    using g chain_sorted[OF c] chain_bounds[OF c] chain_once[OF c] chain_outside[OF c] t
    by auto
qed
theorem C2_instructions_partition_witness:
  "len [1, 2, 3, 4, 5, 6, 7, 8, 9, 10, 11, 12, 13, 14, 15, 16, 9, 9, 17, 18, 19, 20 :: byte]
     \<le> MAX_FILE_SIZE_IN_MEMORY
   \<and> (\<exists>d. generate_delta
             \<lparr>eng_block_size = 16, eng_checksum_type = NONE,
              strong_checksum_func = (\<lambda>data. [0]), eng_protocol = 32\<rparr>
             \<lparr>UPDATING_BASIS_FILE = True, HASH_TABLE_DYNAMIC = True,
              COMPUTE_SENDER_FILE_SUM = False\<rparr>
             (\<lambda>data. [])
             \<lparr>block_size = 16, file_size = 20, num_blocks = 2,
              blocks = [\<lparr>weak_checksum = 53477512, strong_checksum = [0],
                         blk_offset = 0, blk_length = 16\<rparr>,
                        \<lparr>weak_checksum = 11796554, strong_checksum = [0],
                         blk_offset = 16, blk_length = 4\<rparr>]\<rparr>
             [1, 2, 3, 4, 5, 6, 7, 8, 9, 10, 11, 12, 13, 14, 15, 16, 9, 9, 17, 18, 19, 20]
           = Inr d
         \<and> instructions d = [(''match'', DeltaMatch 0 0 16),
                              (''literal'', DeltaLiteral 16 [9, 9, 17, 18, 19, 20])]
         \<and> sorted_wrt (<) (map instr_offset (instructions d))
         \<and> length (filter (covers 17) (instructions d)) = 1
         \<and> filter (covers 22) (instructions d) = [])"
proof -
  have e: "map_sum id instructions
            (generate_delta
             \<lparr>eng_block_size = 16, eng_checksum_type = NONE,
              strong_checksum_func = (\<lambda>data. [0]), eng_protocol = 32\<rparr>
             \<lparr>UPDATING_BASIS_FILE = True, HASH_TABLE_DYNAMIC = True,
              COMPUTE_SENDER_FILE_SUM = False\<rparr>
             (\<lambda>data. [])
             \<lparr>block_size = 16, file_size = 20, num_blocks = 2,
              blocks = [\<lparr>weak_checksum = 53477512, strong_checksum = [0],
                         blk_offset = 0, blk_length = 16\<rparr>,
                        \<lparr>weak_checksum = 11796554, strong_checksum = [0],
                         blk_offset = 16, blk_length = 4\<rparr>]\<rparr>
             [1, 2, 3, 4, 5, 6, 7, 8, 9, 10, 11, 12, 13, 14, 15, 16, 9, 9, 17, 18, 19, 20])
           = Inr [(''match'', DeltaMatch 0 0 16),
                  (''literal'', DeltaLiteral 16 [9, 9, 17, 18, 19, 20])]"
    by code_simp
  show ?thesis
    using C2_instructions_partition
      [of "[1, 2, 3, 4, 5, 6, 7, 8, 9, 10, 11, 12, 13, 14, 15, 16, 9, 9, 17, 18, 19, 20]"
          "\<lparr>eng_block_size = 16, eng_checksum_type = NONE,
              strong_checksum_func = (\<lambda>data. [0]), eng_protocol = 32\<rparr>"
          "\<lparr>UPDATING_BASIS_FILE = True, HASH_TABLE_DYNAMIC = True,
              COMPUTE_SENDER_FILE_SUM = False\<rparr>"
          "(\<lambda>data. [])"
          "\<lparr>block_size = 16, file_size = 20, num_blocks = 2,
              blocks = [\<lparr>weak_checksum = 53477512, strong_checksum = [0],
                         blk_offset = 0, blk_length = 16\<rparr>,
                        \<lparr>weak_checksum = 11796554, strong_checksum = [0],
                         blk_offset = 16, blk_length = 4\<rparr>]\<rparr>"] e
    by (auto simp: len_def MAX_FILE_SIZE_IN_MEMORY_def covers_def)
qed

section \<open>Signatures\<close>






section \<open>Reconstruction\<close>







section \<open>The delta of a file against its own signature\<close>











end
